theory Spec2Isabelle
  imports Main "HOL-Library.Sublist" "HOL-Library.Char_ord" "HOL-Library.List_Lexorder"
begin

section \<open>Library functions the catalog calls\<close>

text \<open>
  Go strings are byte sequences; they are modelled as \<open>string\<close> (a list of 8-bit
  characters), compared bytewise and lexicographically as Go's \<open><\<close> on strings does.
  The functions of this section stand for the Go standard library:
  \<open>utf8.DecodeRuneInString\<close>, \<open>utf8.DecodeLastRuneInString\<close>, \<open>utf8.AppendRune\<close>,
  \<open>unicode.IsSpace\<close>, \<open>unicode.ToLower\<close>, \<open>strings.ToLower\<close>, \<open>strings.TrimSpace\<close>,
  \<open>strings.Split\<close> (with a one-byte separator, the only way the catalog calls it),
  \<open>strings.Index\<close>, \<open>strings.Contains\<close>, \<open>strings.HasPrefix\<close>, \<open>filepath.Split\<close>
  (Unix separator), \<open>strconv.Itoa\<close> and \<open>strconv.Atoi\<close> (64-bit \<open>int\<close>).
\<close>

subsection \<open>UTF-8\<close>

text \<open>
  A rune is a code point, an \<open>int\<close>. \<open>DecodeRuneInString\<close> reads the first rune of a
  string and its width in bytes; a byte that starts no valid encoding is read as
  \<open>RuneError\<close> with width 1 (the empty string: width 0). The second byte of an encoding
  must lie in the range that Go's table \<open>acceptRanges\<close> gives for the first byte.
\<close>

definition byteOf :: "char \<Rightarrow> int" where
  "byteOf c = of_char c"

definition RuneSelf :: int where
  "RuneSelf = 0x80"

definition RuneError :: int where
  "RuneError = 0xFFFD"

definition firstSize :: "int \<Rightarrow> nat" where
  "firstSize s0 =
     (if 0xC2 \<le> s0 \<and> s0 \<le> 0xDF then 2
      else if 0xE0 \<le> s0 \<and> s0 \<le> 0xEF then 3
      else if 0xF0 \<le> s0 \<and> s0 \<le> 0xF4 then 4
      else 1)"

definition acceptLo :: "int \<Rightarrow> int" where
  "acceptLo s0 = (if s0 = 0xE0 then 0xA0 else if s0 = 0xF0 then 0x90 else 0x80)"

definition acceptHi :: "int \<Rightarrow> int" where
  "acceptHi s0 = (if s0 = 0xED then 0x9F else if s0 = 0xF4 then 0x8F else 0xBF)"

definition DecodeRuneInString :: "string \<Rightarrow> int \<times> nat" where
  "DecodeRuneInString s =
     (if s = [] then (RuneError, 0)
      else
        let s0 = byteOf (s ! 0); sz = firstSize s0
        in if sz = 1 then (if s0 < RuneSelf then s0 else RuneError, 1)
           else if length s < sz then (RuneError, 1)
           else
             let s1 = byteOf (s ! 1)
             in if s1 < acceptLo s0 \<or> acceptHi s0 < s1 then (RuneError, 1)
                else if sz \<le> 2 then ((s0 mod 32) * 64 + s1 mod 64, 2)
                else
                  let s2 = byteOf (s ! 2)
                  in if s2 < 0x80 \<or> 0xBF < s2 then (RuneError, 1)
                     else if sz \<le> 3 then
                       ((s0 mod 16) * 4096 + (s1 mod 64) * 64 + s2 mod 64, 3)
                     else
                       let s3 = byteOf (s ! 3)
                       in if s3 < 0x80 \<or> 0xBF < s3 then (RuneError, 1)
                          else ((s0 mod 8) * 262144 + (s1 mod 64) * 4096
                                  + (s2 mod 64) * 64 + s3 mod 64, 4))"

definition RuneStart :: "int \<Rightarrow> bool" where
  "RuneStart b = (\<not> (0x80 \<le> b \<and> b \<le> 0xBF))"

text \<open>
  \<open>DecodeLastRuneInString\<close> reads the last rune: it steps back over at most three
  bytes to the nearest byte that can start a rune and decodes from there; if that
  encoding does not end where the string ends, the last byte is read as \<open>RuneError\<close>.
\<close>

definition DecodeLastRuneInString :: "string \<Rightarrow> int \<times> nat" where
  "DecodeLastRuneInString s =
     (let n = length s
      in if n = 0 then (RuneError, 0)
         else
           let r = byteOf (s ! (n - 1))
           in if r < RuneSelf then (r, 1)
              else
                let lim = n - 4;
                    start = (case find (\<lambda>j. RuneStart (byteOf (s ! j))) (rev [lim..<n - 1]) of
                               Some j \<Rightarrow> j
                             | None \<Rightarrow> lim - 1)
                in case DecodeRuneInString (drop start s) of (r, wid) \<Rightarrow>
                     if start + wid \<noteq> n then (RuneError, 1) else (r, wid))"

text \<open>
  \<open>EncodeRune\<close> is \<open>utf8.AppendRune\<close> to the empty slice: a rune that is no code point
  (negative, a surrogate, or beyond \<open>U+10FFFF\<close>) is written as \<open>RuneError\<close>.
\<close>

definition EncodeRune :: "int \<Rightarrow> string" where
  "EncodeRune r0 =
     (if 0 \<le> r0 \<and> r0 \<le> 0x7F then [char_of r0]
      else if 0 \<le> r0 \<and> r0 \<le> 0x7FF then [char_of (0xC0 + r0 div 64), char_of (0x80 + r0 mod 64)]
      else
        let r = (if r0 < 0 \<or> 0x10FFFF < r0 \<or> (0xD800 \<le> r0 \<and> r0 \<le> 0xDFFF) then RuneError
                 else r0)
        in if r \<le> 0xFFFF then
             [char_of (0xE0 + r div 4096), char_of (0x80 + (r div 64) mod 64),
              char_of (0x80 + r mod 64)]
           else
             [char_of (0xF0 + r div 262144), char_of (0x80 + (r div 4096) mod 64),
              char_of (0x80 + (r div 64) mod 64), char_of (0x80 + r mod 64)])"

text \<open>The runes that \<open>for _, r := range s\<close> visits.\<close>

fun runes :: "string \<Rightarrow> int list" where
  "runes [] = []"
| "runes (c # s) = (case DecodeRuneInString (c # s) of (r, w) \<Rightarrow> r # runes (drop (w - 1) s))"

subsection \<open>Unicode tables\<close>

text \<open>\<open>unicode.IsSpace\<close>: the code points with the property White Space.\<close>

definition unicode_IsSpace :: "int \<Rightarrow> bool" where
  "unicode_IsSpace r =
     ((0x09 \<le> r \<and> r \<le> 0x0D) \<or> r = 0x20 \<or> r = 0x85 \<or> r = 0xA0 \<or> r = 0x1680
      \<or> (0x2000 \<le> r \<and> r \<le> 0x200A) \<or> r = 0x2028 \<or> r = 0x2029 \<or> r = 0x202F
      \<or> r = 0x205F \<or> r = 0x3000)"

text \<open>
  \<open>unicode.ToLower\<close> maps \<open>A\<close>..\<open>Z\<close> to \<open>a\<close>..\<open>z\<close>, leaves every other ASCII rune as it
  is, and looks every other rune up in Go's table of case ranges. Of that table two
  entries are given here, \<open>U+023A\<close> (whose lower case \<open>U+2C65\<close> is one byte longer in
  UTF-8) and \<open>U+FFFD\<close> (which has no case); the lower case of every other rune beyond
  ASCII is left unspecified, so that nothing is proved from it.
\<close>

definition CaseRanges :: "int \<Rightarrow> int" where
  "CaseRanges r = (if r = 0x23A then 0x2C65 else if r = 0xFFFD then 0xFFFD else undefined r)"

definition unicode_ToLower :: "int \<Rightarrow> int" where
  "unicode_ToLower r =
     (if r \<le> 0x7F then (if 0x41 \<le> r \<and> r \<le> 0x5A then r + 32 else r)
      else CaseRanges r)"

subsection \<open>Strings\<close>

definition isASCII :: "string \<Rightarrow> bool" where
  "isASCII s = list_all (\<lambda>c. byteOf c < RuneSelf) s"

definition isUpper :: "char \<Rightarrow> bool" where
  "isUpper c = (CHR ''A'' \<le> c \<and> c \<le> CHR ''Z'')"

definition toLowerChar :: "char \<Rightarrow> char" where
  "toLowerChar c = (if isUpper c then char_of (of_char c + (32::nat)) else c)"

text \<open>
  \<open>strings.ToLower\<close> lower-cases an ASCII string byte by byte. Any other string is
  decoded rune by rune, each rune lower-cased and encoded again (\<open>strings.Map\<close>), so the
  result may differ from the argument in length.
\<close>

definition ToLower :: "string \<Rightarrow> string" where
  "ToLower s =
     (if isASCII s then map toLowerChar s
      else concat (map (\<lambda>r. EncodeRune (unicode_ToLower r)) (runes s)))"

text \<open>
  \<open>strings.TrimSpace\<close> removes the leading and the trailing white space as Unicode
  defines it. Go strips ASCII white space byte by byte and, at the first byte beyond
  ASCII, goes on with \<open>TrimFunc\<close>; the result is that of \<open>TrimRightFunc\<close> after
  \<open>TrimLeftFunc\<close>, both with \<open>unicode.IsSpace\<close>, which is how it is written here.
  \<open>lastIndexFunc\<close> gives the offset of the last rune that is no white space.
\<close>

fun TrimLeftFunc :: "string \<Rightarrow> string" where
  "TrimLeftFunc [] = []"
| "TrimLeftFunc (c # s) =
     (case DecodeRuneInString (c # s) of (r, w) \<Rightarrow>
        if unicode_IsSpace r then TrimLeftFunc (drop (w - 1) s) else c # s)"

lemma DecodeRune_size: "s \<noteq> [] \<Longrightarrow> 1 \<le> snd (DecodeRuneInString s)"
  by (simp add: DecodeRuneInString_def Let_def)

lemma find_upt_bound:
  assumes "find P (rev [a..<b]) = Some j"
  shows "j < b"
proof -
  from assms obtain i where "i < length (rev [a..<b])" and "j = rev [a..<b] ! i"
    by (auto simp: find_Some_iff)
  then have "j \<in> set (rev [a..<b])" by (metis nth_mem)
  then show ?thesis by simp
qed

lemma DecodeLastRune_size: "s \<noteq> [] \<Longrightarrow> 1 \<le> snd (DecodeLastRuneInString s)"
proof -
  assume ne: "s \<noteq> []"
  define start where
    "start = (case find (\<lambda>j. RuneStart (byteOf (s ! j))) (rev [length s - 4..<length s - Suc 0]) of
                None \<Rightarrow> length s - 4 - 1 | Some j \<Rightarrow> j)"
  have "start < length s"
    using ne find_upt_bound[of "\<lambda>j. RuneStart (byteOf (s ! j))" "length s - 4" "length s - Suc 0"]
    by (auto simp: start_def split: option.splits)
  then have "drop start s \<noteq> []" by simp
  then have "1 \<le> snd (DecodeRuneInString (drop start s))" by (rule DecodeRune_size)
  then show ?thesis
    using ne by (auto simp: DecodeLastRuneInString_def Let_def start_def[symmetric] split: prod.splits)
qed

function lastIndexFunc :: "string \<Rightarrow> nat option" where
  "lastIndexFunc s =
     (if s = [] then None
      else case DecodeLastRuneInString s of (r, wid) \<Rightarrow>
        if \<not> unicode_IsSpace r then Some (length s - wid)
        else lastIndexFunc (take (length s - wid) s))"
  by pat_completeness auto
termination
  apply (relation "measure length")
   apply simp
  subgoal for s r wid
    using DecodeLastRune_size[of s] by (cases s) (auto simp: snd_def split: prod.splits)
  done

definition TrimRightFunc :: "string \<Rightarrow> string" where
  "TrimRightFunc s =
     (case lastIndexFunc s of
        None \<Rightarrow> []
      | Some i \<Rightarrow>
          if RuneSelf \<le> byteOf (s ! i) then take (i + snd (DecodeRuneInString (drop i s))) s
          else take (i + 1) s)"

definition TrimSpace :: "string \<Rightarrow> string" where
  "TrimSpace s = TrimRightFunc (TrimLeftFunc s)"

fun Split :: "string \<Rightarrow> char \<Rightarrow> string list" where
  "Split [] sep = [[]]"
| "Split (c # cs) sep =
     (if c = sep then [] # Split cs sep
      else (case Split cs sep of [] \<Rightarrow> [[c]] | w # ws \<Rightarrow> (c # w) # ws))"

text \<open>\<open>strings.Index\<close> returns \<open>-1\<close> when the substring does not occur: \<open>None\<close> here.\<close>

fun Index :: "string \<Rightarrow> string \<Rightarrow> nat option" where
  "Index [] sub = (if sub = [] then Some 0 else None)"
| "Index (c # cs) sub =
     (if prefix sub (c # cs) then Some 0 else map_option Suc (Index cs sub))"

definition Contains :: "string \<Rightarrow> string \<Rightarrow> bool" where
  "Contains s sub = (Index s sub \<noteq> None)"

definition HasPrefix :: "string \<Rightarrow> string \<Rightarrow> bool" where
  "HasPrefix s p = prefix p s"

text \<open>\<open>filepath.Split\<close> cuts right after the last separator; the pair is (dir, file).\<close>

definition filepath_Split :: "string \<Rightarrow> string \<times> string" where
  "filepath_Split p =
     (let file = rev (takeWhile (\<lambda>c. c \<noteq> CHR ''/'') (rev p))
      in (take (length p - length file) p, file))"

definition digit_char :: "nat \<Rightarrow> char" where
  "digit_char d = char_of (48 + d)"

fun digits :: "nat \<Rightarrow> string" where
  "digits n = (if n < 10 then [digit_char n] else digits (n div 10) @ [digit_char (n mod 10)])"

declare digits.simps [simp del]

definition Itoa :: "int \<Rightarrow> string" where
  "Itoa i = (if i < 0 then CHR ''-'' # digits (nat (- i)) else digits (nat i))"

definition isDigit :: "char \<Rightarrow> bool" where
  "isDigit c = (CHR ''0'' \<le> c \<and> c \<le> CHR ''9'')"

definition digit_val :: "char \<Rightarrow> nat" where
  "digit_val c = of_char c - 48"

definition digits_val :: "string \<Rightarrow> nat" where
  "digits_val ds = foldl (\<lambda>n c. n * 10 + digit_val c) 0 ds"

text \<open>
  \<open>strconv.Atoi\<close>: an optional sign, then one or more decimal digits, and the value must
  fit Go's 64-bit \<open>int\<close>; every other string is an error (\<open>None\<close>).
\<close>

definition Atoi :: "string \<Rightarrow> int option" where
  "Atoi s =
     (let neg = (s \<noteq> [] \<and> hd s = CHR ''-'');
          ds = (if s \<noteq> [] \<and> (hd s = CHR ''-'' \<or> hd s = CHR ''+'') then tl s else s);
          v = (if neg then - int (digits_val ds) else int (digits_val ds))
      in if ds = [] \<or> \<not> list_all isDigit ds then None
         else if v < - (2 ^ 63) \<or> 2 ^ 63 \<le> v then None
         else Some v)"

text \<open>Go's integer division truncates towards zero.\<close>

definition go_div :: "int \<Rightarrow> int \<Rightarrow> int" where
  "go_div a b = sgn a * sgn b * (\<bar>a\<bar> div \<bar>b\<bar>)"


section \<open>Data model\<close>

type_synonym ID = string

text \<open>
  The struct \<open>Record\<close>. Its field \<open>SearchTerms\<close> is named \<open>RecordSearchTerms\<close> here,
  because the store has a field \<open>SearchTerms\<close> of its own.
\<close>

record Record =
  Path :: string
  Size :: int
  Hash :: string
  RecordSearchTerms :: "string list"

datatype SearchType = SizeAndHash | SearchTerm

text \<open>
  The lines the program prints through \<open>db.output\<close>, one constructor per
  \<open>Println\<close>/\<open>Printf\<close> call of the source, holding that call's arguments.
\<close>

datatype message =
    MsgUnableToParseSize string string
  | MsgScanError string
  | MsgScanReport string nat nat nat nat
  | MsgNoResults
  | MsgNoResultsForNeedle string
  | MsgResultLine nat string int
  | MsgTruncated
  | MsgDuplicatesFound nat nat nat SearchType
  | MsgDeletePrompt
  | MsgErrorScanning string
  | MsgBlank
  | MsgDeleting ID
  | MsgInvalidNumber string
  | MsgInvalidIndex int
  | MsgUnableToDelete ID

text \<open>How a call can end other than by returning: the process exits, or Go panics.\<close>

datatype error = Exit int | PanicIndexOutOfRange | PanicSliceBounds

text \<open>
  The struct \<open>DB\<close>: the primary map and the three index maps. The field \<open>printed\<close> (the sink \<open>db.output\<close>)
  holds what has been printed so far.
\<close>

record DB =
  Files :: "ID \<rightharpoonup> Record"
  Sizes :: "int \<rightharpoonup> ID list"
  Hashes :: "string \<rightharpoonup> ID list"
  SearchTerms :: "string \<rightharpoonup> ID list"
  printed :: "message list"

definition NewDB :: DB where
  "NewDB = \<lparr>Files = Map.empty, Sizes = Map.empty, Hashes = Map.empty,
            SearchTerms = Map.empty, printed = []\<rparr>"

text \<open>Reading a Go map at a missing key gives the zero value.\<close>

definition zeroRecord :: Record where
  "zeroRecord = \<lparr>Path = [], Size = 0, Hash = [], RecordSearchTerms = []\<rparr>"

definition fileAt :: "DB \<Rightarrow> ID \<Rightarrow> Record" where
  "fileAt db fid = (case Files db fid of None \<Rightarrow> zeroRecord | Some r \<Rightarrow> r)"

definition bucket :: "('k \<rightharpoonup> 'v list) \<Rightarrow> 'k \<Rightarrow> 'v list" where
  "bucket m k = (case m k of None \<Rightarrow> [] | Some l \<Rightarrow> l)"

text \<open>\<open>m[k] = append(m[k], v)\<close>\<close>

definition appendTo :: "('k \<rightharpoonup> 'v list) \<Rightarrow> 'k \<Rightarrow> 'v \<Rightarrow> ('k \<rightharpoonup> 'v list)" where
  "appendTo m k v = m(k \<mapsto> bucket m k @ [v])"

text \<open>
  Go visits the entries of a map in an order it chooses anew for every \<open>range\<close>
  statement. Each function below that ranges over a map takes that order as an argument:
  a list of keys. \<open>enumerates ks m\<close> says that \<open>ks\<close> is such an order for the map \<open>m\<close>.
\<close>

definition enumerates :: "'k list \<Rightarrow> ('k \<rightharpoonup> 'v) \<Rightarrow> bool" where
  "enumerates ks m = (distinct ks \<and> set ks = dom m)"

text \<open>
  The file system the catalog talks to: \<open>os.Stat\<close> (the size, or an error),
  opening, reading and hashing a prefix of a file (the hex digest, or an error),
  \<open>filepath.Walk\<close> as \<open>collectFiles\<close> uses it (the set of files under a root in the order
  the program ranges over it, or an error) and \<open>os.Remove\<close> (whether it succeeded).
\<close>

record FileSystem =
  os_Stat :: "string \<Rightarrow> int option"
  md5_prefix :: "string \<Rightarrow> int \<Rightarrow> string option"
  collectFiles :: "string \<Rightarrow> string list option"
  os_Remove :: "string \<Rightarrow> bool"

definition MB :: int where
  "MB = 1024 * 1024"

definition maxLines :: nat where
  "maxLines = 100"

definition ESC :: char where
  "ESC = CHR 0x1B"

definition redBold :: string where
  "redBold = ESC # ''[1m'' @ ESC # ''[31m''"

definition yellowBold :: string where
  "yellowBold = ESC # ''[1m'' @ ESC # ''[33m''"

definition blueBold :: string where
  "blueBold = ESC # ''[1m'' @ ESC # ''[43m''"

definition reset :: string where
  "reset = ESC # ''[0m''"

definition fast :: string where
  "fast = ''fast''"

definition slow :: string where
  "slow = ''slow''"

section \<open>Loading and writing the catalog\<close>

definition pathToSearchTerms :: "string \<Rightarrow> string list" where
  "pathToSearchTerms filePath =
     (let fileName = snd (filepath_Split filePath)
      in map (\<lambda>term. ToLower (TrimSpace term)) (Split fileName (CHR ''-'')))"

definition add :: "DB \<Rightarrow> string \<Rightarrow> int \<Rightarrow> string \<Rightarrow> string list \<Rightarrow> DB" where
  "add db filePath sz hash searchTerms =
     db\<lparr>Files := (Files db)(filePath \<mapsto>
             \<lparr>Path = filePath, Size = sz, Hash = hash, RecordSearchTerms = searchTerms\<rparr>),
        Sizes := appendTo (Sizes db) sz filePath,
        SearchTerms := foldl (\<lambda>m term. appendTo m term filePath) (SearchTerms db) searchTerms,
        Hashes := appendTo (Hashes db) hash filePath\<rparr>"

text \<open>
  \<open>handleRecord\<close> reads \<open>record[0]\<close>, \<open>record[1]\<close> and, once the size has parsed,
  \<open>record[2]\<close>; Go panics where the row is too short. \<open>add\<close> never returns an error, so
  the branch that reports one is never taken.
\<close>

definition handleRecord :: "DB \<Rightarrow> string list \<Rightarrow> error + DB" where
  "handleRecord db record =
     (if length record < 2 then Inl PanicIndexOutOfRange
      else case Atoi (record ! 1) of
        None \<Rightarrow> Inr (db\<lparr>printed := printed db @ [MsgUnableToParseSize (record ! 0) (record ! 1)]\<rparr>)
      | Some sz \<Rightarrow>
          if length record < 3 then Inl PanicIndexOutOfRange
          else Inr (add db (record ! 0) sz (record ! 2) (pathToSearchTerms (record ! 0))))"

fun handleRecords :: "DB \<Rightarrow> string list list \<Rightarrow> error + DB" where
  "handleRecords db [] = Inr db"
| "handleRecords db (record # records) =
     (case handleRecord db record of
        Inl e \<Rightarrow> Inl e
      | Inr db' \<Rightarrow> handleRecords db' records)"

text \<open>
  What \<open>readCsvFile\<close> returns: an error (the file cannot be opened, or is not CSV), or
  the rows.
\<close>

datatype csv_file = Unreadable | Rows "string list list"

definition Load :: "DB \<Rightarrow> csv_file \<Rightarrow> error + DB" where
  "Load db file =
     (case file of
        Unreadable \<Rightarrow> Inl (Exit 1)
      | Rows records \<Rightarrow> handleRecords db records)"

text \<open>
  \<open>Write\<close> hands one row per record to the CSV writer, ranging over \<open>db.Files\<close> in the
  order \<open>ks\<close>. The result is the rows written.
\<close>

definition Write :: "DB \<Rightarrow> ID list \<Rightarrow> string list list" where
  "Write db ks =
     concat (map (\<lambda>k. case Files db k of
                         None \<Rightarrow> []
                       | Some record \<Rightarrow> [[Path record, Itoa (Size record), Hash record]]) ks)"

subsection \<open>The bytes of the backing file\<close>

text \<open>
  The rows pass through \<open>encoding/csv\<close>: \<open>Write\<close> hands them to a \<open>csv.Writer\<close> and
  \<open>readCsvFile\<close> gets them from \<open>csv.Reader.ReadAll\<close>, both with the settings of
  \<open>csv.NewWriter\<close> and \<open>csv.NewReader\<close>: the comma separates the fields, a line ends
  with a line feed, there are no comments, no lazy quotes and no trimming, and the
  number of fields of a record is that of the first record.
\<close>

definition NL :: char where
  "NL = CHR 0x0A"

definition CR :: char where
  "CR = CHR 0x0D"

definition Quote :: char where
  "Quote = CHR 0x22"

definition Comma :: char where
  "Comma = CHR '',''"

text \<open>
  \<open>Writer.Write\<close> writes a record on one line. A field is written in quotes when
  \<open>fieldNeedsQuotes\<close> says so: it is a backslash followed by a full stop, or it holds a line feed, a carriage return,
  a quote or a comma, or it starts with white space. Inside the quotes every quote is
  doubled and every other byte is copied. \<open>csvOutput\<close> is what the file holds once
  the writer has written the rows and is flushed.
\<close>

definition fieldNeedsQuotes :: "string \<Rightarrow> bool" where
  "fieldNeedsQuotes field =
     (if field = [] then False
      else if field = [CHR 0x5C, CHR ''.''] then True
      else if list_ex (\<lambda>c. c = NL \<or> c = CR \<or> c = Quote \<or> c = Comma) field then True
      else unicode_IsSpace (fst (DecodeRuneInString field)))"

fun quoted :: "string \<Rightarrow> string" where
  "quoted [] = []"
| "quoted (c # field) = (if c = Quote then [Quote, Quote] else [c]) @ quoted field"

definition writeField :: "string \<Rightarrow> string" where
  "writeField field =
     (if \<not> fieldNeedsQuotes field then field else Quote # quoted field @ [Quote])"

fun writeFields :: "string list \<Rightarrow> string" where
  "writeFields [] = []"
| "writeFields [field] = writeField field"
| "writeFields (field # row) = writeField field @ Comma # writeFields row"

definition csv_Write :: "string list \<Rightarrow> string" where
  "csv_Write row = writeFields row @ [NL]"

definition csvOutput :: "string list list \<Rightarrow> string" where
  "csvOutput rows = concat (map csv_Write rows)"

text \<open>
  \<open>Reader.readLine\<close> takes the next line off the unread input, its line feed included,
  and says whether the input had ended (\<open>io.EOF\<close>). It turns a carriage return and line
  feed at the end of the line into a line feed, and drops a carriage return that ends
  the input. The result is the line, the end-of-input flag and the input left.
\<close>

definition lengthNL :: "string \<Rightarrow> nat" where
  "lengthNL b = (if b \<noteq> [] \<and> last b = NL then 1 else 0)"

definition readLine :: "string \<Rightarrow> string \<times> bool \<times> string" where
  "readLine inp =
     (let pre = takeWhile (\<lambda>c. c \<noteq> NL) inp; post = dropWhile (\<lambda>c. c \<noteq> NL) inp
      in if post = [] then
           (if pre = [] then ([], True, [])
            else (if last pre = CR then butlast pre else pre, False, []))
         else
           (if pre \<noteq> [] \<and> last pre = CR then butlast pre @ [NL] else pre @ [NL], False, tl post))"

lemma readLine_length:
  assumes "readLine inp = (line, eof, rest)"
  shows "length line + length rest \<le> length inp" and "\<not> eof \<Longrightarrow> length rest < length inp"
proof -
  let ?pre = "takeWhile (\<lambda>c. c \<noteq> NL) inp" and ?post = "dropWhile (\<lambda>c. c \<noteq> NL) inp"
  have len: "length ?pre + length ?post = length inp"
    by (metis length_append takeWhile_dropWhile_id)
  show "length line + length rest \<le> length inp"
  proof (cases ?post)
    case Nil
    with assms len show ?thesis by (auto simp: readLine_def Let_def split: if_splits)
  next
    case (Cons c post')
    with assms len show ?thesis by (auto simp: readLine_def Let_def split: if_splits)
  qed
  show "\<not> eof \<Longrightarrow> length rest < length inp"
  proof (cases ?post)
    case Nil
    assume "\<not> eof"
    with Nil assms len show ?thesis by (auto simp: readLine_def Let_def split: if_splits)
  next
    case (Cons c post')
    with assms len show ?thesis by (auto simp: readLine_def Let_def split: if_splits)
  qed
qed

lemma tl_dropWhile_less:
  "c \<in> set line \<Longrightarrow> length (tl (dropWhile (\<lambda>x. x \<noteq> c) line)) < length line"
proof -
  assume "c \<in> set line"
  then have "dropWhile (\<lambda>x. x \<noteq> c) line \<noteq> []" by (simp add: dropWhile_eq_Nil_conv)
  then have "length (tl (dropWhile (\<lambda>x. x \<noteq> c) line)) < length (dropWhile (\<lambda>x. x \<noteq> c) line)"
    by (cases "dropWhile (\<lambda>x. x \<noteq> c) line") auto
  also have "\<dots> \<le> length line" by (rule length_dropWhile_le)
  finally show ?thesis .
qed

text \<open>
  The loop \<open>parseField\<close> of \<open>Reader.readRecord\<close>, at the start of a field
  (\<open>Unquoted\<close>) or inside a quoted field, of which \<open>buf\<close> has been read (\<open>Quoted buf\<close>).
  A field that does not start with a quote runs to the next comma or to the end of the
  line and must hold no quote. A quoted field runs to the next quote that is not
  doubled, over as many lines as it takes, and that quote must be followed by a comma
  or by the end of the line. The result is the fields of the record and the input
  left, or \<open>None\<close> for a parse error.
\<close>

datatype field_state = Unquoted | Quoted string

function parseField :: "field_state \<Rightarrow> string \<Rightarrow> string \<Rightarrow> string list \<Rightarrow> (string list \<times> string) option" where
  "parseField Unquoted line rest dst =
     (if line = [] \<or> hd line \<noteq> Quote then
        (if Comma \<in> set line then
           (let field = takeWhile (\<lambda>c. c \<noteq> Comma) line
            in if Quote \<in> set field then None
               else parseField Unquoted (tl (dropWhile (\<lambda>c. c \<noteq> Comma) line)) rest (dst @ [field]))
         else
           (let field = take (length line - lengthNL line) line
            in if Quote \<in> set field then None else Some (dst @ [field], rest)))
      else parseField (Quoted []) (tl line) rest dst)"
| "parseField (Quoted buf) line rest dst =
     (if Quote \<in> set line then
        (let buf' = buf @ takeWhile (\<lambda>c. c \<noteq> Quote) line;
             line' = tl (dropWhile (\<lambda>c. c \<noteq> Quote) line)
         in if line' \<noteq> [] \<and> hd line' = Quote then
              parseField (Quoted (buf' @ [Quote])) (tl line') rest dst
            else if line' \<noteq> [] \<and> hd line' = Comma then
              parseField Unquoted (tl line') rest (dst @ [buf'])
            else if lengthNL line' = length line' then Some (dst @ [buf'], rest)
            else None)
      else if line \<noteq> [] then
        (case readLine rest of (line', eof, rest') \<Rightarrow>
           parseField (Quoted (buf @ line)) line' rest' dst)
      else None)"
  by pat_completeness auto
termination
proof (relation "measure (\<lambda>(st, line, rest, dst). length line + length rest)", goal_cases)
  case 1
  show ?case by simp
next
  case (2 line rest dst x)
  then show ?case using tl_dropWhile_less[of Comma line] by simp
next
  case (3 line rest dst)
  then show ?case by (cases line) auto
next
  case (4 buf line rest dst x xa)
  then show ?case
    using tl_dropWhile_less[of Quote line] by (cases "tl (dropWhile (\<lambda>c. c \<noteq> Quote) line)") auto
next
  case (5 buf line rest dst x xa)
  then show ?case
    using tl_dropWhile_less[of Quote line] by (cases "tl (dropWhile (\<lambda>c. c \<noteq> Quote) line)") auto
next
  case (6 buf line rest dst line' y eof rest')
  then show ?case
    using readLine_length(1)[of rest line' eof rest'] by (cases line) auto
qed

declare parseField.simps [simp del]

lemma parseField_rest:
  "parseField st line rest dst = Some (fs, rest') \<Longrightarrow> length rest' \<le> length rest"
proof (induction st line rest dst rule: parseField.induct)
  case (1 line rest dst)
  show ?case
    using 1(3)
    apply (subst (asm) parseField.simps(1))
    apply (auto simp: Let_def split: if_splits intro: 1(1)[OF _ _ refl] 1(2))
    done
next
  case (2 buf line rest dst)
  show ?case
  proof (cases "Quote \<in> set line")
    case True
    show ?thesis
      using 2(4) True
      apply (subst (asm) parseField.simps(2))
      apply (auto simp: Let_def split: if_splits intro: 2(1)[OF True refl refl] 2(2)[OF True refl refl])
      done
  next
    case False
    show ?thesis
    proof (cases "line = []")
      case True
      with False 2(4) show ?thesis by (simp add: parseField.simps)
    next
      case ne: False
      obtain line' eof r' where rl: "readLine rest = (line', eof, r')" by (cases "readLine rest") auto
      with False ne 2(4) have "parseField (Quoted (buf @ line)) line' r' dst = Some (fs, rest')"
        by (simp add: parseField.simps)
      with 2(3)[OF False ne rl[symmetric] refl] have "length rest' \<le> length r'" by simp
      moreover have "length r' \<le> length rest" using readLine_length(1)[OF rl] by simp
      ultimately show ?thesis by simp
    qed
  qed
qed

text \<open>
  \<open>Reader.readRecord\<close> skips the empty lines, then parses one record. \<open>ReadAll\<close> reads
  records to the end of the input; it fails on a parse error and on a record whose
  number of fields is not that of the first record.
\<close>

datatype record_result = EndOfFile | ParseError | Fields "string list" string

function readRecord :: "string \<Rightarrow> record_result" where
  "readRecord inp =
     (case readLine inp of (line, eof, rest) \<Rightarrow>
        if eof then EndOfFile
        else if length line = lengthNL line then readRecord rest
        else (case parseField Unquoted line rest [] of
                None \<Rightarrow> ParseError
              | Some (dst, rest') \<Rightarrow> Fields dst rest'))"
  by pat_completeness auto
termination
proof (relation "measure length", goal_cases)
  case 1
  show ?case by simp
next
  case (2 inp line y eof rest)
  then show ?case using readLine_length(2)[of inp line eof rest] by simp
qed

declare readRecord.simps [simp del]

lemma readRecord_rest:
  "readRecord inp = Fields dst rest \<Longrightarrow> length rest < length inp"
proof (induction inp rule: readRecord.induct)
  case (1 inp)
  obtain line eof r where rl: "readLine inp = (line, eof, r)" by (cases "readLine inp") auto
  have neof: "\<not> eof"
    using 1(2) rl by (subst (asm) readRecord.simps) (auto split: if_splits)
  then have less: "length r < length inp" using readLine_length(2)[OF rl] by simp
  show ?case
  proof (cases "length line = lengthNL line")
    case True
    with 1(2) rl neof have "readRecord r = Fields dst rest"
      by (subst (asm) readRecord.simps) simp
    with 1(1)[OF rl[symmetric] refl neof True] less show ?thesis by simp
  next
    case False
    with 1(2) rl neof obtain fs where "parseField Unquoted line r [] = Some (fs, rest)"
      by (subst (asm) readRecord.simps) (auto split: option.splits)
    then have "length rest \<le> length r" by (rule parseField_rest)
    with less show ?thesis by simp
  qed
qed

function readRecords :: "nat \<Rightarrow> string \<Rightarrow> string list list option" where
  "readRecords fieldsPerRecord inp =
     (case readRecord inp of
        EndOfFile \<Rightarrow> Some []
      | ParseError \<Rightarrow> None
      | Fields dst rest \<Rightarrow>
          if 0 < fieldsPerRecord \<and> length dst \<noteq> fieldsPerRecord then None
          else map_option (\<lambda>records. dst # records)
                 (readRecords (if fieldsPerRecord = 0 then length dst else fieldsPerRecord) rest))"
  by pat_completeness auto
termination
proof (relation "measure (\<lambda>(n, inp). length inp)", goal_cases)
  case 1
  show ?case by simp
next
  case (2 fieldsPerRecord inp dst rest)
  then show ?case using readRecord_rest[of inp dst rest] by simp
qed

declare readRecords.simps [simp del]

definition ReadAll :: "string \<Rightarrow> string list list option" where
  "ReadAll inp = readRecords 0 inp"

text \<open>
  \<open>readCsvFile\<close>, given what the file holds (\<open>None\<close>: it cannot be opened): an error when
  the file cannot be opened or is not CSV, and the rows otherwise.
\<close>

definition readCsvFile :: "string option \<Rightarrow> csv_file" where
  "readCsvFile file =
     (case file of
        None \<Rightarrow> Unreadable
      | Some bytes \<Rightarrow> (case ReadAll bytes of None \<Rightarrow> Unreadable | Some records \<Rightarrow> Rows records))"

section \<open>Scanning\<close>

text \<open>
  \<open>hashFile\<close> stats the file again and shortens the sample to the file's size when the
  file is smaller than one MB; opening, reading and digesting are the file system's.
\<close>

definition hashFile :: "FileSystem \<Rightarrow> string \<Rightarrow> int \<Rightarrow> string option" where
  "hashFile fs path sampleSize =
     (case os_Stat fs path of
        None \<Rightarrow> None
      | Some fsize \<Rightarrow> md5_prefix fs path (if fsize < MB then fsize else sampleSize))"

text \<open>\<open>handleMatch\<close>: \<open>None\<close> stands for the error it returns when stat or hashing fails.\<close>

definition handleMatch :: "FileSystem \<Rightarrow> DB \<Rightarrow> string \<Rightarrow> DB option" where
  "handleMatch fs db filename =
     (case os_Stat fs filename of
        None \<Rightarrow> None
      | Some sz \<Rightarrow>
          (let searchTerms = pathToSearchTerms filename;
               hashSize = (if sz < MB then sz else MB)
           in case hashFile fs filename hashSize of
                None \<Rightarrow> None
              | Some hash \<Rightarrow> Some (add db filename sz hash searchTerms)))"

text \<open>
  The first loop of \<open>handleMatches\<close>, over the files found (the set \<open>files\<close> in the order
  Go ranges over it); the state is the store and the counters \<open>skipped\<close> and \<open>created\<close>.
\<close>

fun addFound :: "FileSystem \<Rightarrow> string list \<Rightarrow> DB \<times> nat \<times> nat \<Rightarrow> DB \<times> nat \<times> nat" where
  "addFound fs [] st = st"
| "addFound fs (filename # rest) (db, skipped, created) =
     (if Files db filename \<noteq> None then addFound fs rest (db, skipped + 1, created)
      else case handleMatch fs db filename of
             None \<Rightarrow> addFound fs rest (db\<lparr>printed := printed db @ [MsgScanError filename]\<rparr>,
                                         skipped, created)
           | Some db' \<Rightarrow> addFound fs rest (db', skipped, created + 1))"

text \<open>
  The second loop, over \<open>db.Files\<close> in the order \<open>ks\<close>. An entry deleted before the loop
  reaches it is not produced. The entry deleted is the one at the key \<open>ID(record.Path)\<close>,
  and only \<open>db.Files\<close> is changed.
\<close>

fun removeMissing :: "string \<Rightarrow> string list \<Rightarrow> ID list \<Rightarrow> DB \<times> nat \<Rightarrow> DB \<times> nat" where
  "removeMissing root files [] st = st"
| "removeMissing root files (k # ks) (db, deleted) =
     (case Files db k of
        None \<Rightarrow> removeMissing root files ks (db, deleted)
      | Some record \<Rightarrow>
          if \<not> HasPrefix (Path record) root then removeMissing root files ks (db, deleted)
          else if Path record \<notin> set files
               then removeMissing root files ks
                      (db\<lparr>Files := (Files db)(Path record := None)\<rparr>, deleted + 1)
               else removeMissing root files ks (db, deleted))"

definition handleMatches :: "FileSystem \<Rightarrow> DB \<Rightarrow> string \<Rightarrow> string list \<Rightarrow> ID list \<Rightarrow> DB" where
  "handleMatches fs db root files ks =
     (case addFound fs files (db, 0, 0) of
        (db1, skipped, created) \<Rightarrow>
          (case removeMissing root files ks (db1, 0) of
             (db2, deleted) \<Rightarrow>
               db2\<lparr>printed := printed db2 @
                      [MsgScanReport root (length files) skipped created deleted]\<rparr>))"

text \<open>
  \<open>Scan\<close>: the roots in order, each with the order in which the second loop of
  \<open>handleMatches\<close> ranges over \<open>db.Files\<close>. When \<open>collectFiles\<close> fails, \<open>Scan\<close> returns the
  error and \<open>ScanCommand\<close> exits with status 1.
\<close>

fun Scan :: "FileSystem \<Rightarrow> DB \<Rightarrow> (string \<times> ID list) list \<Rightarrow> error + DB" where
  "Scan fs db [] = Inr db"
| "Scan fs db ((root, ks) # roots) =
     (case collectFiles fs root of
        None \<Rightarrow> Inl (Exit 1)
      | Some files \<Rightarrow> Scan fs (handleMatches fs db root files ks) roots)"

section \<open>Highlighting and printing\<close>

text \<open>
  A slice expression \<open>s[lo:hi]\<close> panics unless \<open>lo \<le> hi \<le> len(s)\<close>.
\<close>

definition go_slice :: "string \<Rightarrow> nat \<Rightarrow> nat \<Rightarrow> error + string" where
  "go_slice s lo hi =
     (if lo \<le> hi \<and> hi \<le> length s then Inr (take (hi - lo) (drop lo s))
      else Inl PanicSliceBounds)"

definition collectHighlights :: "string \<Rightarrow> string list \<Rightarrow> (nat \<times> nat) list" where
  "collectHighlights lower needles =
     concat (map (\<lambda>searchTerm. case Index lower searchTerm of
                                  None \<Rightarrow> []
                                | Some idx \<Rightarrow> [(idx, idx + length searchTerm)]) needles)"

text \<open>How the loop over the highlights ends: by the early return, or with \<open>tmp\<close> and \<open>parts\<close>.\<close>

datatype loop_end = Overlap | Done nat "string list"

fun highlightLoop :: "string \<Rightarrow> (nat \<times> nat) list \<Rightarrow> nat \<Rightarrow> string list \<Rightarrow> error + loop_end" where
  "highlightLoop haystack [] tmp parts = Inr (Done tmp parts)"
| "highlightLoop haystack ((lo, hi) # rest) tmp parts =
     (if tmp > 0 \<and> tmp > lo then Inr Overlap
      else case go_slice haystack tmp lo of
             Inl e \<Rightarrow> Inl e
           | Inr before \<Rightarrow>
               (case go_slice haystack lo hi of
                  Inl e \<Rightarrow> Inl e
                | Inr hit \<Rightarrow>
                    highlightLoop haystack rest hi (parts @ [before, redBold @ hit @ reset])))"

text \<open>
  \<open>sort.Slice\<close> orders the highlights by their start. It is modelled by the stable
  insertion sort \<open>sort_key fst\<close>, which is what Go runs on slices of up to 12 elements.
\<close>

definition FindHighlights :: "string \<Rightarrow> string list \<Rightarrow> error + string" where
  "FindHighlights haystack needles =
     (let lower = ToLower haystack;
          highlights = sort_key fst (collectHighlights lower needles)
      in case highlightLoop haystack highlights 0 [] of
           Inl e \<Rightarrow> Inl e
         | Inr Overlap \<Rightarrow> Inr (blueBold @ haystack @ reset)
         | Inr (Done tmp parts0) \<Rightarrow>
             (let parts = (if tmp < length haystack then parts0 @ [drop tmp haystack]
                           else parts0)
              in if length parts \<le> 1 then Inr (yellowBold @ haystack @ reset)
                 else Inr (concat parts)))"

fun printLines :: "DB \<Rightarrow> string list \<Rightarrow> nat \<Rightarrow> ID list \<Rightarrow> error + message list" where
  "printLines db searchTerms i [] = Inr []"
| "printLines db searchTerms i (fid # ids) =
     (let record = fileAt db fid
      in case FindHighlights (Path record) searchTerms of
           Inl e \<Rightarrow> Inl e
         | Inr path \<Rightarrow>
             (case printLines db searchTerms (i + 1) ids of
                Inl e \<Rightarrow> Inl e
              | Inr rest \<Rightarrow> Inr (MsgResultLine (i + 1) path (go_div (Size record) MB) # rest)))"

text \<open>
  \<open>PrintIDs\<close> cuts \<open>ids\<close> to its first \<open>maxLines\<close> elements, then sorts what is left, in
  place, and prints it. The result is the lines printed and the caller's slice as the
  sort leaves it (the caller indexes it afterwards in \<open>deleteFile\<close>).
\<close>

definition PrintIDs :: "DB \<Rightarrow> ID list \<Rightarrow> string list \<Rightarrow> error + (message list \<times> ID list)" where
  "PrintIDs db ids0 searchTerms =
     (let ids = sort (if length ids0 > maxLines then take maxLines ids0 else ids0)
      in case printLines db searchTerms 0 ids of
           Inl e \<Rightarrow> Inl e
         | Inr lines \<Rightarrow>
             Inr (lines @ (if length ids \<ge> maxLines then [MsgTruncated] else []),
                  ids @ drop maxLines ids0))"

section \<open>Searching\<close>

fun fastCollectIDs :: "DB \<Rightarrow> string list \<Rightarrow> ID list list \<Rightarrow> message list \<times> ID list list" where
  "fastCollectIDs db [] results = ([], results)"
| "fastCollectIDs db (needle # rest) results =
     (case SearchTerms db needle of
        None \<Rightarrow> ([MsgNoResultsForNeedle needle], [])
      | Some termIDs \<Rightarrow>
          if termIDs = [] then ([], []) else fastCollectIDs db rest (results @ [termIDs]))"

text \<open>
  \<open>slowCollectIDs\<close> ranges over \<open>db.SearchTerms\<close> once per needle; \<open>kss\<close> holds the order
  of each of these loops.
\<close>

definition foundIDs :: "DB \<Rightarrow> string \<Rightarrow> string list \<Rightarrow> ID list" where
  "foundIDs db needle ks =
     concat (map (\<lambda>term. case SearchTerms db term of
                            None \<Rightarrow> []
                          | Some ids \<Rightarrow> if Contains term needle then ids else []) ks)"

fun slowCollectIDs :: "DB \<Rightarrow> string list \<Rightarrow> string list list \<Rightarrow> ID list list \<Rightarrow> message list \<times> ID list list" where
  "slowCollectIDs db [] kss results = ([], results)"
| "slowCollectIDs db (needle # rest) kss results =
     (let found = foundIDs db needle (case kss of [] \<Rightarrow> [] | ks # _ \<Rightarrow> ks)
      in if found = [] then ([MsgNoResultsForNeedle needle], [])
         else slowCollectIDs db rest (tl kss) (results @ [found]))"

definition intersectIDs :: "ID list \<Rightarrow> ID list \<Rightarrow> ID list" where
  "intersectIDs a b = filter (\<lambda>fid. fid \<in> set b) a"

fun intersectLoop :: "ID list \<Rightarrow> ID list list \<Rightarrow> ID list" where
  "intersectLoop idGroup [] = idGroup"
| "intersectLoop idGroup (termIDs # rest) =
     (let idGroup' = intersectIDs idGroup termIDs
      in if idGroup' = [] then [] else intersectLoop idGroup' rest)"

definition intersectAllIDs :: "ID list list \<Rightarrow> error + ID list" where
  "intersectAllIDs idGroups =
     (case idGroups of
        [] \<Rightarrow> Inl PanicIndexOutOfRange
      | idGroup # rest \<Rightarrow> Inr (intersectLoop idGroup rest))"

definition collectIDs :: "DB \<Rightarrow> string \<Rightarrow> string list \<Rightarrow> string list list \<Rightarrow> message list \<times> ID list list" where
  "collectIDs db searchType searchTerms kss =
     (if searchType = fast then fastCollectIDs db searchTerms []
      else if searchType = slow then slowCollectIDs db searchTerms kss []
      else ([], []))"

text \<open>
  \<open>Search\<close>, in two parts: \<open>searchIDs\<close> is the value of the variable \<open>intersected\<close> (no
  identifiers when the search stops at "No results found."), and \<open>Search\<close> is what is
  printed.
\<close>

definition searchIDs :: "DB \<Rightarrow> string \<Rightarrow> string list \<Rightarrow> string list list \<Rightarrow> error + ID list" where
  "searchIDs db searchType searchTerms kss =
     (let allIDs = snd (collectIDs db searchType searchTerms kss)
      in if allIDs = [] then Inr [] else intersectAllIDs allIDs)"

definition Search :: "DB \<Rightarrow> string \<Rightarrow> string list \<Rightarrow> string list list \<Rightarrow> error + message list" where
  "Search db searchType searchTerms kss =
     (case collectIDs db searchType searchTerms kss of
        (msgs, allIDs) \<Rightarrow>
          if allIDs = [] then Inr (msgs @ [MsgNoResults])
          else (case intersectAllIDs allIDs of
                  Inl e \<Rightarrow> Inl e
                | Inr intersected \<Rightarrow>
                    (case PrintIDs db intersected searchTerms of
                       Inl e \<Rightarrow> Inl e
                     | Inr res \<Rightarrow> Inr (msgs @ fst res))))"

section \<open>Duplicates\<close>

record SearchGroup =
  IDs :: "ID list"
  GroupSearchTerms :: "string list"
  Type :: SearchType

text \<open>
  \<open>deleteFile\<close>: the record leaves \<open>db.Files\<close> before \<open>os.Remove\<close> is called, and nothing
  else of the store changes.
\<close>

definition deleteFile :: "FileSystem \<Rightarrow> DB \<Rightarrow> ID list \<Rightarrow> string \<Rightarrow> DB \<times> bool" where
  "deleteFile fs db ids num =
     (case Atoi (TrimSpace num) of
        None \<Rightarrow> (db\<lparr>printed := printed db @ [MsgInvalidNumber num]\<rparr>, False)
      | Some index \<Rightarrow>
          if index < 1 \<or> index > int (length ids)
          then (db\<lparr>printed := printed db @ [MsgInvalidIndex index]\<rparr>, False)
          else (let fid = ids ! nat (index - 1);
                    db1 = db\<lparr>printed := printed db @ [MsgDeleting fid]\<rparr>;
                    db2 = db1\<lparr>Files := (Files db1)(fid := None)\<rparr>
                in if os_Remove fs fid then (db2, True)
                   else (db2\<lparr>printed := printed db2 @ [MsgUnableToDelete fid]\<rparr>, False)))"

fun deleteFiles :: "FileSystem \<Rightarrow> DB \<Rightarrow> ID list \<Rightarrow> string list \<Rightarrow> DB" where
  "deleteFiles fs db ids [] = db"
| "deleteFiles fs db ids (num # numbers) = deleteFiles fs (fst (deleteFile fs db ids num)) ids numbers"

text \<open>
  The loop of \<open>handleDuplicateGroups\<close> over the groups, in the order \<open>gks\<close> of their keys.
  The state is the store, the variable \<open>input\<close>, the counter \<open>iter\<close> and the lines still
  to come from \<open>Scanln\<close>: \<open>None\<close> is a call that returns an error, as is every call after
  the last line.
\<close>

fun groupLoop :: "FileSystem \<Rightarrow> (string \<rightharpoonup> SearchGroup) \<Rightarrow> nat \<Rightarrow> string list
                   \<Rightarrow> DB \<times> string \<times> nat \<times> string option list
                   \<Rightarrow> error + (DB \<times> string option list)" where
  "groupLoop fs searchGroups ngroups [] (db, input, iter, lines) = Inr (db, lines)"
| "groupLoop fs searchGroups ngroups (gk # gks) (db, input, iter, lines) =
     (case searchGroups gk of
        None \<Rightarrow> groupLoop fs searchGroups ngroups gks (db, input, iter, lines)
      | Some grp \<Rightarrow>
          (let db1 = db\<lparr>printed := printed db @
                        [MsgDuplicatesFound (length (IDs grp)) iter ngroups (Type grp)]\<rparr>
           in case PrintIDs db1 (IDs grp) (GroupSearchTerms grp) of
                Inl e \<Rightarrow> Inl e
              | Inr (shown, ids) \<Rightarrow>
                  (let db2 = db1\<lparr>printed := printed db1 @ shown @ [MsgDeletePrompt]\<rparr>
                   in case lines of
                        [] \<Rightarrow> groupLoop fs searchGroups ngroups gks
                                (db2\<lparr>printed := printed db2 @ [MsgErrorScanning input, MsgBlank]\<rparr>,
                                 input, iter + 1, [])
                      | None # lines' \<Rightarrow> groupLoop fs searchGroups ngroups gks
                                (db2\<lparr>printed := printed db2 @ [MsgErrorScanning input, MsgBlank]\<rparr>,
                                 input, iter + 1, lines')
                      | Some line # lines' \<Rightarrow>
                          if TrimSpace line = [] then
                            groupLoop fs searchGroups ngroups gks (db2, line, iter + 1, lines')
                          else
                            (let db3 = deleteFiles fs db2 ids (Split line (CHR '',''))
                             in groupLoop fs searchGroups ngroups gks
                                  (db3\<lparr>printed := printed db3 @ [MsgBlank]\<rparr>,
                                   line, iter + 1, lines')))))"

definition handleDuplicateGroups :: "FileSystem \<Rightarrow> DB \<Rightarrow> (string \<rightharpoonup> SearchGroup) \<Rightarrow> string list
                                       \<Rightarrow> string option list \<Rightarrow> error + (DB \<times> string option list)" where
  "handleDuplicateGroups fs db searchGroups gks lines =
     groupLoop fs searchGroups (length gks) gks (db, [], 1, lines)"

text \<open>\<open>fmt.Sprintf("%s-%d", hash, size)\<close>\<close>

definition groupID :: "string \<Rightarrow> int \<Rightarrow> string" where
  "groupID hash sz = hash @ ''-'' @ Itoa sz"

text \<open>The map \<open>sizes\<close> built for one hash bucket.\<close>

definition sizesOf :: "DB \<Rightarrow> ID list \<Rightarrow> (int \<rightharpoonup> ID list)" where
  "sizesOf db ids = foldl (\<lambda>sizes fid. appendTo sizes (Size (fileAt db fid)) fid) Map.empty ids"

text \<open>The inner loop, over \<open>sizes\<close> in the order \<open>sks\<close>.\<close>

definition hashGroups :: "DB \<Rightarrow> string \<Rightarrow> ID list \<Rightarrow> int list
                            \<Rightarrow> (string \<rightharpoonup> SearchGroup) \<Rightarrow> (string \<rightharpoonup> SearchGroup)" where
  "hashGroups db hash ids sks groups =
     foldl (\<lambda>groups sz. case sizesOf db ids sz of
                           None \<Rightarrow> groups
                         | Some sizeIDs \<Rightarrow>
                             groups(groupID hash sz \<mapsto>
                               \<lparr>IDs = sort sizeIDs, GroupSearchTerms = [], Type = SizeAndHash\<rparr>))
           groups sks"

text \<open>
  The map \<open>groups\<close> of \<open>duplicatesBySizeAndHash\<close>: the outer loop ranges over \<open>db.Hashes\<close>
  in the order \<open>hks\<close>, the inner loop for the hash \<open>h\<close> in the order \<open>sks h\<close>.
\<close>

definition sizeAndHashGroups :: "DB \<Rightarrow> string list \<Rightarrow> (string \<Rightarrow> int list) \<Rightarrow> (string \<rightharpoonup> SearchGroup)" where
  "sizeAndHashGroups db hks sks =
     foldl (\<lambda>groups hash. case Hashes db hash of
                             None \<Rightarrow> groups
                           | Some ids \<Rightarrow>
                               if length ids < 2 then groups
                               else hashGroups db hash ids (sks hash) groups)
           Map.empty hks"

text \<open>The map \<open>groups\<close> of \<open>duplicatesBySearchTerm\<close>.\<close>

definition searchTermGroups :: "DB \<Rightarrow> int \<Rightarrow> string list \<Rightarrow> (string \<rightharpoonup> SearchGroup)" where
  "searchTermGroups db minLength tks =
     foldl (\<lambda>groups term. case SearchTerms db term of
                             None \<Rightarrow> groups
                           | Some ids \<Rightarrow>
                               if length ids < 2 then groups
                               else if int (length term) < minLength then groups
                               else groups(term \<mapsto>
                                      \<lparr>IDs = ids, GroupSearchTerms = [term], Type = SearchTerm\<rparr>))
           Map.empty tks"

text \<open>
  What Go chooses and what the user types while \<open>Duplicates\<close> runs: the orders of the
  loops over the maps and the lines read.
\<close>

record DuplicatesRun =
  hashOrder :: "string list"
  sizeOrder :: "string \<Rightarrow> int list"
  hashGroupOrder :: "string list"
  termOrder :: "string list"
  termGroupOrder :: "string list"
  typed :: "string option list"

definition Duplicates :: "FileSystem \<Rightarrow> DB \<Rightarrow> int \<Rightarrow> DuplicatesRun \<Rightarrow> error + DB" where
  "Duplicates fs db minLength run =
     (case handleDuplicateGroups fs db (sizeAndHashGroups db (hashOrder run) (sizeOrder run))
             (hashGroupOrder run) (typed run) of
        Inl e \<Rightarrow> Inl e
      | Inr (db1, lines) \<Rightarrow>
          (case handleDuplicateGroups fs db1 (searchTermGroups db1 minLength (termOrder run))
                  (termGroupOrder run) lines of
             Inl e \<Rightarrow> Inl e
           | Inr (db2, _) \<Rightarrow> Inr db2))"

section \<open>Sequences of operations\<close>

datatype operation =
    OpLoad csv_file
  | OpScan FileSystem "(string \<times> ID list) list"
  | OpDuplicates FileSystem int DuplicatesRun

fun step :: "DB \<Rightarrow> operation \<Rightarrow> error + DB" where
  "step db (OpLoad file) = Load db file"
| "step db (OpScan fs roots) = Scan fs db roots"
| "step db (OpDuplicates fs minLength run) = Duplicates fs db minLength run"

fun steps :: "DB \<Rightarrow> operation list \<Rightarrow> error + DB" where
  "steps db [] = Inr db"
| "steps db (opn # ops) = (case step db opn of Inl e \<Rightarrow> Inl e | Inr db' \<Rightarrow> steps db' ops)"

section \<open>Well-formed stores and example data\<close>

text \<open>
  Every record is stored at the key that is its path: \<open>add\<close>, the only function that
  writes to \<open>db.Files\<close>, stores the record with \<open>Path = filePath\<close> at \<open>ID(filePath)\<close>.
\<close>

definition keyed :: "DB \<Rightarrow> bool" where
  "keyed db = (\<forall>k record. Files db k = Some record \<longrightarrow> Path record = k)"

text \<open>A file system on which every call fails.\<close>

definition noFS :: FileSystem where
  "noFS = \<lparr>os_Stat = (\<lambda>_. None), md5_prefix = (\<lambda>_ _. None), collectFiles = (\<lambda>_. None),
           os_Remove = (\<lambda>_. False)\<rparr>"

definition oneFileDB :: DB where
  "oneFileDB = add NewDB ''a.txt'' 3 ''h'' (pathToSearchTerms ''a.txt'')"

text \<open>
  What holds of the indices after every operation: every record is stored at its path,
  carries the search terms derived from its path, and its path is in the bucket of its
  size, in the bucket of its hash and in the bucket of each of its search terms.
\<close>

definition indexed :: "DB \<Rightarrow> bool" where
  "indexed db =
     (\<forall>p r. Files db p = Some r \<longrightarrow>
        Path r = p \<and> RecordSearchTerms r = pathToSearchTerms p
        \<and> p \<in> set (bucket (Sizes db) (Size r))
        \<and> p \<in> set (bucket (Hashes db) (Hash r))
        \<and> (\<forall>t \<in> set (pathToSearchTerms p). p \<in> set (bucket (SearchTerms db) t)))"

text \<open>
  The invariant as the specification words it, exact in both directions: a path is in a
  bucket if and only if it is the path of a record of \<open>Files\<close> with that size, that hash
  or that search term.
\<close>

definition denormalized :: "DB \<Rightarrow> bool" where
  "denormalized db =
     (\<forall>p. (\<forall>s. p \<in> set (bucket (Sizes db) s) \<longleftrightarrow> (\<exists>r. Files db p = Some r \<and> Size r = s))
        \<and> (\<forall>h. p \<in> set (bucket (Hashes db) h) \<longleftrightarrow> (\<exists>r. Files db p = Some r \<and> Hash r = h))
        \<and> (\<forall>t. p \<in> set (bucket (SearchTerms db) t) \<longleftrightarrow>
                 (\<exists>r. Files db p = Some r \<and> t \<in> set (pathToSearchTerms p))))"

text \<open>\<open>shrunk db db'\<close>: \<open>db'\<close> has the indices of \<open>db\<close> and some of its records.\<close>

definition sameIndices :: "DB \<Rightarrow> DB \<Rightarrow> bool" where
  "sameIndices db db' = (Sizes db' = Sizes db \<and> Hashes db' = Hashes db \<and> SearchTerms db' = SearchTerms db)"

definition shrunk :: "DB \<Rightarrow> DB \<Rightarrow> bool" where
  "shrunk db db' = (Files db' \<subseteq>\<^sub>m Files db \<and> sameIndices db db')"

text \<open>A file that \<open>handleMatch\<close> can stat and hash.\<close>

definition readable :: "FileSystem \<Rightarrow> string \<Rightarrow> bool" where
  "readable fs filename =
     (case os_Stat fs filename of
        None \<Rightarrow> False
      | Some sz \<Rightarrow> hashFile fs filename (if sz < MB then sz else MB) \<noteq> None)"

text \<open>A file system on which every file has four bytes and the root \<open>r\<close> holds one file.\<close>

definition okFS :: FileSystem where
  "okFS = \<lparr>os_Stat = (\<lambda>_. Some 4), md5_prefix = (\<lambda>_ _. Some ''g''),
           collectFiles = (\<lambda>root. if root = ''r'' then Some [''r/b.txt''] else Some []),
           os_Remove = (\<lambda>_. False)\<rparr>"

definition twoRows :: "string list list" where
  "twoRows = [[''r/a.txt'', ''3'', ''h''], [''r/b.txt'', ''4'', ''g'']]"

definition loadThenScan :: "operation list" where
  "loadThenScan = [OpLoad (Rows twoRows), OpScan okFS [(''r'', [''r/a.txt'', ''r/b.txt''])]]"

definition twoFilesDB :: DB where
  "twoFilesDB = add (add NewDB ''r/a.txt'' 3 ''h'' (pathToSearchTerms ''r/a.txt''))
                    ''r/b.txt'' 4 ''g'' (pathToSearchTerms ''r/b.txt'')"

definition dir10DB :: DB where
  "dir10DB = add NewDB ''dir10/a.txt'' 3 ''h'' (pathToSearchTerms ''dir10/a.txt'')"

text \<open>
  The (path, size, hash) triples of a store, the values of Go's 64-bit \<open>int\<close>, and a
  record as \<open>handleRecord\<close> rebuilds it from its row.
\<close>

definition triples :: "DB \<Rightarrow> (string \<times> int \<times> string) set" where
  "triples db = {(Path r, Size r, Hash r) | r. r \<in> ran (Files db)}"

definition goInt :: "int \<Rightarrow> bool" where
  "goInt i = (- (2 ^ 63) \<le> i \<and> i < 2 ^ 63)"

definition reloaded :: "Record \<Rightarrow> Record" where
  "reloaded r = \<lparr>Path = Path r, Size = Size r, Hash = Hash r,
                 RecordSearchTerms = pathToSearchTerms (Path r)\<rparr>"

text \<open>
  \<open>hasCRLF s\<close>: a carriage return is followed at once by a line feed somewhere in \<open>s\<close>.
  Two stores of one record each: the path of \<open>crlfDB\<close> holds a carriage return and a line
  feed (\<open>lfPath\<close> is that path without the carriage return), the path of \<open>quotedDB\<close> a
  space, a comma, two quotes and a line feed.
\<close>

fun hasCRLF :: "string \<Rightarrow> bool" where
  "hasCRLF [] = False"
| "hasCRLF (c # s) = ((c = CR \<and> s \<noteq> [] \<and> hd s = NL) \<or> hasCRLF s)"

definition crlfPath :: string where
  "crlfPath = ''a'' @ [CR, NL] @ ''b''"

definition lfPath :: string where
  "lfPath = ''a'' @ [NL] @ ''b''"

definition crlfDB :: DB where
  "crlfDB = add NewDB crlfPath 3 ''h'' (pathToSearchTerms crlfPath)"

definition quotedPath :: string where
  "quotedPath = ''x/a, '' @ [Quote] @ ''b'' @ [Quote, NL] @ ''.txt''"

definition quotedDB :: DB where
  "quotedDB = add NewDB quotedPath 3 ''h'' (pathToSearchTerms quotedPath)"

text \<open>
  A text cut at its first line feed, the reader's loop on a text so cut, and the fields
  that the writer leaves without quotes.
\<close>

definition firstLine :: "string \<Rightarrow> string" where
  "firstLine text = takeWhile (\<lambda>c. c \<noteq> NL) text @ [NL]"

definition afterLine :: "string \<Rightarrow> string" where
  "afterLine text = tl (dropWhile (\<lambda>c. c \<noteq> NL) text)"

definition parseText :: "field_state \<Rightarrow> string \<Rightarrow> string list \<Rightarrow> (string list \<times> string) option" where
  "parseText st text dst = parseField st (firstLine text) (afterLine text) dst"

definition plain :: "string \<Rightarrow> bool" where
  "plain field = (NL \<notin> set field \<and> CR \<notin> set field \<and> Quote \<notin> set field \<and> Comma \<notin> set field)"

text \<open>
  The match set of one query token, as the specification describes the two modes: in
  exact mode the bucket of the token, in fuzzy mode the union of the buckets whose key
  contains the token.
\<close>

definition matchSet :: "DB \<Rightarrow> string \<Rightarrow> string \<Rightarrow> ID set" where
  "matchSet db searchType needle =
     (if searchType = fast then set (bucket (SearchTerms db) needle)
      else \<Union> {set ids | term ids. SearchTerms db term = Some ids \<and> Contains term needle})"

text \<open>The records of the search test.\<close>

definition searchDB :: DB where
  "searchDB =
     foldl (\<lambda>db (p, sz, h). add db p sz h (pathToSearchTerms p)) NewDB
       [(''bambam/foo-756381984.txt'', 756381984, ''464f''),
        (''bambam/bar-1786396036.txt'', 1786396036, ''4d09''),
        (''bambam/baz.txt'', 756381984, ''464f''),
        (''bambam/quix-1786396036.txt'', 123, ''788b'')]"

definition searchOrder :: "string list" where
  "searchOrder = [''foo'', ''756381984.txt'', ''bar'', ''1786396036.txt'', ''baz.txt'', ''quix'']"






fun wrapSpans :: "string \<Rightarrow> nat \<Rightarrow> (nat \<times> nat) list \<Rightarrow> string" where
  "wrapSpans haystack pos [] = drop pos haystack"
| "wrapSpans haystack pos ((lo, hi) # spans) =
     take (lo - pos) (drop pos haystack) @ redBold @ take (hi - lo) (drop lo haystack) @ reset
     @ wrapSpans haystack hi spans"


text \<open>
  The policy as the code implements it. A token matches where it first occurs, byte for
  byte, in the lower-cased haystack: the token itself is not lower-cased, and the empty
  token matches at offset 0 with an empty span. The spans are ordered by their start,
  spans of equal start in the order of their tokens. A span clashes with a later span
  that starts before it ends; two spans that are not empty clash exactly when they
  overlap. \<open>renderingPolicy\<close> is the three-way rendering with clashing spans in the
  place of overlapping ones.
\<close>

definition occursIn :: "string \<Rightarrow> string \<Rightarrow> nat \<Rightarrow> bool" where
  "occursIn lower token i =
     (i + length token \<le> length lower \<and> take (length token) (drop i lower) = token)"

definition firstIn :: "string \<Rightarrow> string \<Rightarrow> nat option" where
  "firstIn lower token = find (occursIn lower token) [0..<Suc (length lower)]"

definition foundSpans :: "string \<Rightarrow> string list \<Rightarrow> (nat \<times> nat) list" where
  "foundSpans haystack tokens =
     sort_key fst (concat (map (\<lambda>token. case firstIn (ToLower haystack) token of
                                          None \<Rightarrow> []
                                        | Some i \<Rightarrow> [(i, i + length token)]) tokens))"

fun anyClash :: "(nat \<times> nat) list \<Rightarrow> bool" where
  "anyClash [] = False"
| "anyClash (a # spans) = ((\<exists>b\<in>set spans. fst b < snd a) \<or> anyClash spans)"

definition renderingPolicy :: "string \<Rightarrow> string list \<Rightarrow> string" where
  "renderingPolicy haystack tokens =
     (let spans = foundSpans haystack tokens
      in if anyClash spans then blueBold @ haystack @ reset
         else if spans = [] then yellowBold @ haystack @ reset
         else wrapSpans haystack 0 spans)"


text \<open>
  A store holding each of the given paths with size 1, the lines \<open>PrintIDs\<close> prints for
  such records when there is no search term, and a hundred distinct paths.
\<close>

definition catalogOf :: "ID list \<Rightarrow> DB" where
  "catalogOf ids = foldl (\<lambda>db p. add db p 1 ''h'' (pathToSearchTerms p)) NewDB ids"

definition resultLines :: "ID list \<Rightarrow> message list" where
  "resultLines ids =
     map (\<lambda>(k, fid). MsgResultLine (k + 1) (yellowBold @ fid @ reset) 0) (enumerate 0 ids)"

definition hundredIDs :: "ID list" where
  "hundredIDs = map (\<lambda>i. ''f'' @ Itoa (int i)) [100..<200]"

text \<open>
  The (hash, size) partitions of the size+hash pass, as the specification words them:
  \<open>isPartition db hash sz\<close> says that the bucket of \<open>hash\<close> holds at least two
  identifiers and one of them has the size \<open>sz\<close>; \<open>sizeGroup\<close> is the candidate group of
  that partition, its members sorted by path. \<open>sizeOrderOf\<close> is one order in which the
  inner loop may range over the sizes of a bucket.
\<close>

definition sizeGroup :: "DB \<Rightarrow> ID list \<Rightarrow> int \<Rightarrow> SearchGroup" where
  "sizeGroup db ids sz =
     \<lparr>IDs = sort (filter (\<lambda>fid. Size (fileAt db fid) = sz) ids), GroupSearchTerms = [],
      Type = SizeAndHash\<rparr>"

definition isPartition :: "DB \<Rightarrow> string \<Rightarrow> int \<Rightarrow> bool" where
  "isPartition db hash sz =
     (case Hashes db hash of
        None \<Rightarrow> False
      | Some ids \<Rightarrow> 2 \<le> length ids \<and> (\<exists>fid\<in>set ids. Size (fileAt db fid) = sz))"

definition sizeOrderOf :: "DB \<Rightarrow> string \<Rightarrow> int list" where
  "sizeOrderOf db hash = remdups (map (\<lambda>fid. Size (fileAt db fid)) (bucket (Hashes db) hash))"

definition hashOrder3 :: "string list" where
  "hashOrder3 = [''464f'', ''4d09'', ''788b'']"

section \<open>Facts about the library functions and the store\<close>

lemma Write_rows:
  "row \<in> set (Write db ks) \<longleftrightarrow>
     (\<exists>k\<in>set ks. \<exists>r. Files db k = Some r \<and> row = [Path r, Itoa (Size r), Hash r])"
proof -
  have "set (case Files db k of None \<Rightarrow> [] | Some r \<Rightarrow> [[Path r, Itoa (Size r), Hash r]])
        = {row. \<exists>r. Files db k = Some r \<and> row = [Path r, Itoa (Size r), Hash r]}" for k
    by (cases "Files db k") auto
  then show ?thesis by (auto simp: Write_def)
qed

lemma oneFileDB_Files:
  "Files oneFileDB = [''a.txt'' \<mapsto> \<lparr>Path = ''a.txt'', Size = 3, Hash = ''h'',
                                     RecordSearchTerms = pathToSearchTerms ''a.txt''\<rparr>]"
  by (simp add: oneFileDB_def add_def NewDB_def)

lemma keyed_oneFileDB: "keyed oneFileDB"
  by (simp add: keyed_def oneFileDB_Files)

lemma Atoi_1: "Atoi ''1'' = Some 1"
  by code_simp

lemma Atoi_Trim_1: "Atoi (TrimSpace ''1'') = Some 1"
  by code_simp

lemma bucket_appendTo: "bucket (appendTo m k v) k' = (if k' = k then bucket m k @ [v] else bucket m k')"
  by (simp add: appendTo_def bucket_def)

lemma bucket_foldl_appendTo:
  "set (bucket (foldl (\<lambda>m t. appendTo m t v) m ts) t) = set (bucket m t) \<union> (if t \<in> set ts then {v} else {})"
  by (induction ts arbitrary: m) (auto simp: bucket_appendTo)

lemma indexed_NewDB: "indexed NewDB"
  by (simp add: indexed_def NewDB_def)

lemma indexed_add:
  assumes "indexed db"
  shows "indexed (add db p sz h (pathToSearchTerms p))"
  using assms unfolding indexed_def add_def
  by (auto simp: bucket_appendTo bucket_foldl_appendTo)

lemma indexed_printed [simp]: "indexed (db\<lparr>printed := x\<rparr>) = indexed db"
  by (simp add: indexed_def)

lemma indexed_shrink:
  assumes "indexed db" and "Files db' \<subseteq>\<^sub>m Files db" and "sameIndices db db'"
  shows "indexed db'"
  unfolding indexed_def
proof (intro allI impI)
  fix p r assume "Files db' p = Some r"
  with assms(2) have "Files db p = Some r" by (auto simp: map_le_def dom_def)
  with assms(1,3) show "Path r = p \<and> RecordSearchTerms r = pathToSearchTerms p
        \<and> p \<in> set (bucket (Sizes db') (Size r))
        \<and> p \<in> set (bucket (Hashes db') (Hash r))
        \<and> (\<forall>t \<in> set (pathToSearchTerms p). p \<in> set (bucket (SearchTerms db') t))"
    by (simp add: indexed_def sameIndices_def)
qed

lemma indexed_handleRecord: "indexed db \<Longrightarrow> handleRecord db row = Inr db' \<Longrightarrow> indexed db'"
  by (auto simp: handleRecord_def indexed_add split: if_splits option.splits)

lemma indexed_handleRecords: "indexed db \<Longrightarrow> handleRecords db rows = Inr db' \<Longrightarrow> indexed db'"
  by (induction rows arbitrary: db) (auto split: sum.splits dest: indexed_handleRecord)

lemma indexed_Load: "indexed db \<Longrightarrow> Load db file = Inr db' \<Longrightarrow> indexed db'"
  by (auto simp: Load_def split: csv_file.splits dest: indexed_handleRecords)

lemma indexed_handleMatch: "indexed db \<Longrightarrow> handleMatch fs db f = Some db' \<Longrightarrow> indexed db'"
  by (auto simp: handleMatch_def Let_def indexed_add split: option.splits)

lemma indexed_addFound: "indexed db \<Longrightarrow> indexed (fst (addFound fs files (db, s, c)))"
  by (induction files arbitrary: db s c) (auto split: option.splits dest: indexed_handleMatch)

lemma removeMissing_shrinks:
  "Files (fst (removeMissing root files ks (db, d))) \<subseteq>\<^sub>m Files db
   \<and> sameIndices db (fst (removeMissing root files ks (db, d)))"
proof (induction ks arbitrary: db d)
  case Nil
  then show ?case by (simp add: sameIndices_def)
next
  case (Cons k ks)
  have del: "(Files db)(x := None) \<subseteq>\<^sub>m Files db" for x by (simp add: map_le_def)
  show ?case
  proof (cases "Files db k")
    case None
    then show ?thesis using Cons.IH[of db d] by simp
  next
    case (Some r)
    let ?db = "db\<lparr>Files := (Files db)(Path r := None)\<rparr>"
    have "Files (fst (removeMissing root files ks (?db, d + 1))) \<subseteq>\<^sub>m Files ?db"
      using Cons.IH[of ?db "d + 1"] by blast
    moreover have "Files ?db \<subseteq>\<^sub>m Files db" using del by simp
    ultimately have 1: "Files (fst (removeMissing root files ks (?db, d + 1))) \<subseteq>\<^sub>m Files db"
      by (rule map_le_trans)
    have 2: "sameIndices db (fst (removeMissing root files ks (?db, d + 1)))"
      using Cons.IH[of ?db "d + 1"] by (simp add: sameIndices_def)
    show ?thesis using Some Cons.IH[of db d] 1 2 by simp
  qed
qed

lemma indexed_handleMatches: "indexed db \<Longrightarrow> indexed (handleMatches fs db root files ks)"
proof -
  assume i: "indexed db"
  obtain db1 s c where a: "addFound fs files (db, 0, 0) = (db1, s, c)" by (metis prod_cases3)
  obtain db2 d where r: "removeMissing root files ks (db1, 0) = (db2, d)" by (metis prod.exhaust)
  from i a have "indexed db1" using indexed_addFound[of db fs files 0 0] by simp
  moreover from r have "Files db2 \<subseteq>\<^sub>m Files db1" "sameIndices db1 db2"
    using removeMissing_shrinks[of root files ks db1 0] by simp_all
  ultimately have "indexed db2" by (rule indexed_shrink)
  with a r show ?thesis by (simp add: handleMatches_def)
qed

lemma indexed_Scan: "indexed db \<Longrightarrow> Scan fs db roots = Inr db' \<Longrightarrow> indexed db'"
proof (induction roots arbitrary: db)
  case Nil
  then show ?case by simp
next
  case (Cons a roots)
  obtain root ks where a: "a = (root, ks)" by (cases a)
  from Cons.prems(2) a obtain files where "collectFiles fs root = Some files"
    and "Scan fs (handleMatches fs db root files ks) roots = Inr db'"
    by (auto split: option.splits)
  with Cons.IH[OF indexed_handleMatches[OF Cons.prems(1)]] show ?case by blast
qed

lemma shrunk_refl [simp]: "shrunk db db"
  by (simp add: shrunk_def sameIndices_def)

lemma shrunk_trans: "shrunk a b \<Longrightarrow> shrunk b c \<Longrightarrow> shrunk a c"
  unfolding shrunk_def sameIndices_def using map_le_trans by auto

lemma shrunk_printed [simp]: "shrunk (db\<lparr>printed := x\<rparr>) db' = shrunk db db'"
  "shrunk db (db'\<lparr>printed := x\<rparr>) = shrunk db db'"
  by (simp_all add: shrunk_def sameIndices_def)

lemma shrunk_delete: "shrunk db (db\<lparr>Files := (Files db)(x := None)\<rparr>)"
  "shrunk db (db\<lparr>printed := y, Files := (Files db)(x := None)\<rparr>)"
  by (simp_all add: shrunk_def sameIndices_def map_le_def)

lemma indexed_shrunk: "indexed db \<Longrightarrow> shrunk db db' \<Longrightarrow> indexed db'"
  unfolding shrunk_def using indexed_shrink by blast

lemma shrunk_deleteFile: "shrunk db (fst (deleteFile fs db ids num))"
  by (simp add: deleteFile_def Let_def shrunk_delete split: option.splits)

lemma shrunk_deleteFiles: "shrunk db (deleteFiles fs db ids nums)"
proof (induction nums arbitrary: db)
  case Nil
  show ?case by simp
next
  case (Cons num nums)
  from shrunk_deleteFile Cons.IH show ?case
    by (simp del: shrunk_printed) (rule shrunk_trans)
qed

lemma shrunk_groupLoop:
  "groupLoop fs g n gks (db, input, iter, lines) = Inr (db', lines') \<Longrightarrow> shrunk db db'"
proof (induction gks arbitrary: db input iter lines)
  case Nil
  then show ?case by simp
next
  case (Cons gk gks)
  show ?case
  proof (cases "g gk")
    case None
    with Cons show ?thesis by simp
  next
    case (Some grp)
    let ?db1 = "db\<lparr>printed := printed db @ [MsgDuplicatesFound (length (IDs grp)) iter n (Type grp)]\<rparr>"
    from Cons.prems Some obtain shown ids where
      p: "PrintIDs ?db1 (IDs grp) (GroupSearchTerms grp) = Inr (shown, ids)"
      by (auto simp: Let_def split: sum.splits)
    let ?db2 = "?db1\<lparr>printed := printed ?db1 @ shown @ [MsgDeletePrompt]\<rparr>"
    show ?thesis
    proof (cases lines)
      case Nil
      with Cons.prems Some p Cons.IH[of "?db2\<lparr>printed := printed ?db2 @ [MsgErrorScanning input, MsgBlank]\<rparr>"]
      show ?thesis by (simp add: Let_def)
    next
      case (Cons l ls)
      show ?thesis
      proof (cases l)
        case None
        with Cons.prems \<open>g gk = Some grp\<close> p Cons
          Cons.IH[of "?db2\<lparr>printed := printed ?db2 @ [MsgErrorScanning input, MsgBlank]\<rparr>"]
        show ?thesis by (simp add: Let_def)
      next
        case (Some line)
        show ?thesis
        proof (cases "TrimSpace line = []")
          case True
          with Cons.prems \<open>g gk = Some grp\<close> p Cons Some Cons.IH[of ?db2 line "iter + 1" ls]
          show ?thesis by (simp add: Let_def)
        next
          case False
          let ?db3 = "deleteFiles fs ?db2 ids (Split line (CHR '',''))"
          from Cons.prems \<open>g gk = Some grp\<close> p Cons Some False
          have "groupLoop fs g n gks (?db3\<lparr>printed := printed ?db3 @ [MsgBlank]\<rparr>, line, iter + 1, ls)
                = Inr (db', lines')"
            by (simp add: Let_def)
          then have "shrunk ?db3 db'" using Cons.IH by fastforce
          moreover have "shrunk db ?db3" using shrunk_deleteFiles[of ?db2 fs ids] by simp
          ultimately show ?thesis by (rule shrunk_trans[rotated])
        qed
      qed
    qed
  qed
qed


lemma shrunk_handleDuplicateGroups:
  "handleDuplicateGroups fs db g gks lines = Inr (db', lines') \<Longrightarrow> shrunk db db'"
  unfolding handleDuplicateGroups_def by (rule shrunk_groupLoop)

lemma shrunk_Duplicates: "Duplicates fs db minLength run = Inr db' \<Longrightarrow> shrunk db db'"
  unfolding Duplicates_def
  by (auto split: sum.splits prod.splits
           dest!: shrunk_handleDuplicateGroups intro: shrunk_trans)

lemma indexed_step: "indexed db \<Longrightarrow> step db opn = Inr db' \<Longrightarrow> indexed db'"
  by (cases opn) (auto dest: indexed_Load indexed_Scan shrunk_Duplicates indexed_shrunk)

lemma handleMatch_None: "handleMatch fs db f = None \<longleftrightarrow> \<not> readable fs f"
  by (simp add: handleMatch_def readable_def Let_def split: option.splits)

lemma handleMatch_Files:
  "handleMatch fs db f = Some db' \<Longrightarrow> \<exists>r. Path r = f \<and> Files db' = (Files db)(f \<mapsto> r)"
proof -
  assume "handleMatch fs db f = Some db'"
  then obtain sz h where
    "Files db' = (Files db)(f \<mapsto> \<lparr>Path = f, Size = sz, Hash = h,
                                     RecordSearchTerms = pathToSearchTerms f\<rparr>)"
    by (auto simp: handleMatch_def Let_def add_def split: option.splits)
  then show ?thesis
    by (intro exI[of _ "\<lparr>Path = f, Size = sz, Hash = h, RecordSearchTerms = pathToSearchTerms f\<rparr>"]) simp
qed

lemma keyed_printed [simp]: "keyed (db\<lparr>printed := x\<rparr>) = keyed db"
  by (simp add: keyed_def)

lemma addFound_Files:
  "addFound fs files (db, s, c) = (db', s', c') \<Longrightarrow>
     (keyed db \<longrightarrow> keyed db')
   \<and> (\<forall>k. Files db k \<noteq> None \<longrightarrow> Files db' k = Files db k)
   \<and> (\<forall>f\<in>set files. Files db' f = None \<longrightarrow> \<not> readable fs f)
   \<and> dom (Files db') \<subseteq> dom (Files db) \<union> set files"
proof (induction files arbitrary: db s c)
  case Nil
  then show ?case by simp
next
  case (Cons f files)
  show ?case
  proof (cases "Files db f \<noteq> None")
    case True
    with Cons.prems have "addFound fs files (db, s + 1, c) = (db', s', c')" by simp
    from Cons.IH[OF this] True show ?thesis by auto
  next
    case absent: False
    show ?thesis
    proof (cases "handleMatch fs db f")
      case None
      with absent Cons.prems
      have "addFound fs files (db\<lparr>printed := printed db @ [MsgScanError f]\<rparr>, s, c) = (db', s', c')"
        by simp
      from Cons.IH[OF this] None show ?thesis by (auto simp: handleMatch_None)
    next
      case (Some db1)
      with absent Cons.prems have "addFound fs files (db1, s, c + 1) = (db', s', c')" by simp
      note ih = Cons.IH[OF this]
      from handleMatch_Files[OF Some] obtain r where r: "Path r = f" "Files db1 = (Files db)(f \<mapsto> r)"
        by blast
      then have k: "keyed db \<longrightarrow> keyed db1" by (auto simp: keyed_def)
      from r absent have old: "\<forall>k. Files db k \<noteq> None \<longrightarrow> Files db1 k = Files db k" by auto
      from r have new: "Files db1 f \<noteq> None" by simp
      from ih k old new r show ?thesis by (auto simp: dom_def)
    qed
  qed
qed

lemma addFound_known:
  assumes "\<forall>f\<in>set files. Files db f \<noteq> None \<or> \<not> readable fs f"
  shows "addFound fs files (db, s, c) =
           (db\<lparr>printed := printed db @ map MsgScanError (filter (\<lambda>f. Files db f = None) files)\<rparr>,
            s + length (filter (\<lambda>f. Files db f \<noteq> None) files), c)"
  using assms
proof (induction files arbitrary: db s)
  case Nil
  then show ?case by simp
next
  case (Cons f files)
  show ?case
  proof (cases "Files db f \<noteq> None")
    case True
    with Cons show ?thesis by simp
  next
    case False
    with Cons.prems have "handleMatch fs db f = None" by (simp add: handleMatch_None)
    with False Cons.IH[of "db\<lparr>printed := printed db @ [MsgScanError f]\<rparr>" s] Cons.prems
    show ?thesis by simp
  qed
qed

lemma removeMissing_result:
  assumes "keyed db"
  shows "keyed (fst (removeMissing root files ks (db, d)))
       \<and> (\<forall>k. Files (fst (removeMissing root files ks (db, d))) k =
              (if k \<in> set ks \<and> Files db k \<noteq> None \<and> HasPrefix k root \<and> k \<notin> set files then None
               else Files db k))"
  using assms
proof (induction ks arbitrary: db d)
  case Nil
  then show ?case by simp
next
  case (Cons a ks)
  show ?case
  proof (cases "Files db a")
    case None
    with Cons.IH[OF Cons.prems, of d] show ?thesis by auto
  next
    case (Some r)
    with Cons.prems have p: "Path r = a" by (simp add: keyed_def)
    show ?thesis
    proof (cases "HasPrefix a root \<and> a \<notin> set files")
      case True
      let ?db = "db\<lparr>Files := (Files db)(a := None)\<rparr>"
      from Cons.prems have "keyed ?db" by (simp add: keyed_def)
      from Cons.IH[OF this, of "d + 1"] Some p True show ?thesis by auto
    next
      case False
      with Cons.IH[OF Cons.prems, of d] Some p show ?thesis by auto
    qed
  qed
qed

lemma removeMissing_noop:
  assumes "keyed db" and "\<forall>k. Files db k \<noteq> None \<longrightarrow> \<not> HasPrefix k root \<or> k \<in> set files"
  shows "removeMissing root files ks (db, d) = (db, d)"
  using assms
proof (induction ks)
  case Nil
  then show ?case by simp
next
  case (Cons a ks)
  then show ?case by (cases "Files db a") (auto simp: keyed_def)
qed

lemma handleMatches_first:
  fixes fs :: FileSystem and root :: string and files ks1 :: "string list" and db0 :: DB
  assumes "keyed db0" and "dom (Files db0) \<union> set files \<subseteq> set ks1"
  defines "db1 \<equiv> handleMatches fs db0 root files ks1"
  shows "keyed db1"
    and "\<forall>f\<in>set files. Files db1 f \<noteq> None \<or> \<not> readable fs f"
    and "\<forall>k. Files db1 k \<noteq> None \<longrightarrow> \<not> HasPrefix k root \<or> k \<in> set files"
proof -
  obtain dbA s c where a: "addFound fs files (db0, 0, 0) = (dbA, s, c)" by (metis prod_cases3)
  obtain dbB d where b: "removeMissing root files ks1 (dbA, 0) = (dbB, d)" by (metis prod.exhaust)
  from addFound_Files[OF a] assms(1)
  have kA: "keyed dbA" and unread: "\<forall>f\<in>set files. Files dbA f = None \<longrightarrow> \<not> readable fs f"
    and "dom (Files dbA) \<subseteq> dom (Files db0) \<union> set files" by blast+
  with assms(2) have domA: "dom (Files dbA) \<subseteq> set ks1" by blast
  from removeMissing_result[OF kA, of root files ks1 0] b
  have kB: "keyed dbB"
    and fB: "\<And>k. Files dbB k = (if k \<in> set ks1 \<and> Files dbA k \<noteq> None \<and> HasPrefix k root \<and> k \<notin> set files
                               then None else Files dbA k)"
    by simp_all
  have f1: "Files db1 = Files dbB" and "keyed db1 = keyed dbB"
    using a b by (simp_all add: db1_def handleMatches_def keyed_def)
  then show "keyed db1" using kB by simp
  show "\<forall>f\<in>set files. Files db1 f \<noteq> None \<or> \<not> readable fs f"
    using f1 fB unread by auto
  show "\<forall>k. Files db1 k \<noteq> None \<longrightarrow> \<not> HasPrefix k root \<or> k \<in> set files"
  proof (intro allI impI)
    fix k assume "Files db1 k \<noteq> None"
    then have n: "Files dbB k \<noteq> None" using f1 by simp
    then have "Files dbA k \<noteq> None" using fB[of k] by (auto split: if_splits)
    then have "k \<in> set ks1" using domA by (auto simp: dom_def)
    with n fB[of k] show "\<not> HasPrefix k root \<or> k \<in> set files" by (auto split: if_splits)
  qed
qed

lemma Atoi_3: "Atoi ''3'' = Some 3" by code_simp
lemma Atoi_4: "Atoi ''4'' = Some 4" by code_simp

lemma Load_twoRows: "Load NewDB (Rows twoRows) = Inr twoFilesDB"
  by (simp add: Load_def twoRows_def handleRecord_def Atoi_3 Atoi_4 twoFilesDB_def)

lemma Files_twoFilesDB:
  "Files twoFilesDB = [''r/a.txt'' \<mapsto> \<lparr>Path = ''r/a.txt'', Size = 3, Hash = ''h'', RecordSearchTerms = pathToSearchTerms ''r/a.txt''\<rparr>,
                       ''r/b.txt'' \<mapsto> \<lparr>Path = ''r/b.txt'', Size = 4, Hash = ''g'', RecordSearchTerms = pathToSearchTerms ''r/b.txt''\<rparr>]"
  by (simp add: twoFilesDB_def add_def NewDB_def)

lemma Sizes_twoFilesDB: "Sizes twoFilesDB = [3 \<mapsto> [''r/a.txt''], 4 \<mapsto> [''r/b.txt'']]"
  by (simp add: twoFilesDB_def add_def NewDB_def appendTo_def bucket_def)

lemma steps_loadThenScan:
  "steps NewDB loadThenScan =
     Inr (twoFilesDB\<lparr>Files := (Files twoFilesDB)(''r/a.txt'' := None),
                     printed := [MsgScanReport ''r'' 1 1 0 1]\<rparr>)"
proof -
  have p: "printed twoFilesDB = []" by (simp add: twoFilesDB_def add_def NewDB_def)
  have "handleMatches okFS twoFilesDB ''r'' [''r/b.txt''] [''r/a.txt'', ''r/b.txt'']
        = twoFilesDB\<lparr>Files := (Files twoFilesDB)(''r/a.txt'' := None),
                     printed := [MsgScanReport ''r'' 1 1 0 1]\<rparr>"
    by (simp add: handleMatches_def Files_twoFilesDB HasPrefix_def p)
  then show ?thesis
    by (simp add: loadThenScan_def Load_twoRows okFS_def)
qed

lemma of_char_digit_char: "d < 10 \<Longrightarrow> of_char (digit_char d) = (48 + d :: nat)"
  by (simp add: digit_char_def)

lemma isDigit_iff: "isDigit c \<longleftrightarrow> 48 \<le> (of_char c :: nat) \<and> (of_char c :: nat) \<le> 57"
  by (simp add: isDigit_def less_eq_char_def)

lemma isDigit_digit_char: "d < 10 \<Longrightarrow> isDigit (digit_char d)"
  by (simp add: isDigit_iff of_char_digit_char)

lemma digit_val_digit_char: "d < 10 \<Longrightarrow> digit_val (digit_char d) = d"
  by (simp add: digit_val_def of_char_digit_char)

lemma digits_val_snoc: "digits_val (ds @ [c]) = digits_val ds * 10 + digit_val c"
  by (simp add: digits_val_def)

lemma digits_props:
  "digits n \<noteq> [] \<and> list_all isDigit (digits n) \<and> digits_val (digits n) = n"
proof (induction n rule: digits.induct)
  case (1 n)
  show ?case
  proof (cases "n < 10")
    case True
    then show ?thesis
      by (subst (1 2 3) digits.simps) (simp add: isDigit_digit_char digits_val_def digit_val_digit_char)
  next
    case False
    with 1 have ih: "digits (n div 10) \<noteq> []" "list_all isDigit (digits (n div 10))"
      "digits_val (digits (n div 10)) = n div 10" by simp_all
    from False have eq: "digits n = digits (n div 10) @ [digit_char (n mod 10)]"
      by (subst digits.simps) simp
    show ?thesis
      unfolding eq using ih by (simp add: isDigit_digit_char digits_val_snoc digit_val_digit_char)
  qed
qed

lemma hd_digits: "hd (digits n) \<noteq> CHR ''-'' \<and> hd (digits n) \<noteq> CHR ''+''"
proof -
  from digits_props[of n] have "isDigit (hd (digits n))"
    by (cases "digits n") simp_all
  then show ?thesis by (auto simp: isDigit_iff)
qed

lemma Atoi_Itoa:
  assumes "- (2 ^ 63) \<le> i" and "i < 2 ^ 63"
  shows "Atoi (Itoa i) = Some i"
proof (cases "i < 0")
  case True
  with assms digits_props[of "nat (- i)"] show ?thesis
    by (simp add: Atoi_def Itoa_def Let_def)
next
  case False
  with assms digits_props[of "nat i"] hd_digits[of "nat i"] show ?thesis
    by (simp add: Atoi_def Itoa_def Let_def)
qed

lemma Itoa_inj: "Itoa i = Itoa j \<Longrightarrow> i = j"
proof -
  assume e: "Itoa i = Itoa j"
  have neg: "hd (Itoa k) = CHR ''-'' \<longleftrightarrow> k < 0" for k
    using hd_digits[of "nat k"] by (simp add: Itoa_def)
  from e neg[of i] neg[of j] have s: "i < 0 \<longleftrightarrow> j < 0" by simp
  have "digits_val (digits (nat \<bar>i\<bar>)) = digits_val (digits (nat \<bar>j\<bar>))"
    using e s by (auto simp: Itoa_def split: if_splits)
  then have "nat \<bar>i\<bar> = nat \<bar>j\<bar>" by (simp add: digits_props)
  with s show ?thesis by auto
qed

lemma handleRecord_written:
  "goInt sz \<Longrightarrow> handleRecord d [p, Itoa sz, h] = Inr (add d p sz h (pathToSearchTerms p))"
  by (simp add: handleRecord_def goInt_def Atoi_Itoa)

lemma Write_Cons:
  "Write db (k # ks) =
     (case Files db k of None \<Rightarrow> [] | Some r \<Rightarrow> [[Path r, Itoa (Size r), Hash r]]) @ Write db ks"
  by (simp add: Write_def)

lemma handleRecords_Write:
  assumes "keyed db" and "\<forall>r \<in> ran (Files db). goInt (Size r)"
  shows "\<exists>d'. handleRecords d (Write db ks) = Inr d' \<and> printed d' = printed d
           \<and> (\<forall>k. Files d' k =
                 (if k \<in> set ks \<and> Files db k \<noteq> None then map_option reloaded (Files db k)
                  else Files d k))"
proof (induction ks arbitrary: d)
  case Nil
  show ?case by (simp add: Write_def)
next
  case (Cons a ks)
  show ?case
  proof (cases "Files db a")
    case None
    with Cons.IH[of d] show ?thesis by (auto simp: Write_Cons)
  next
    case (Some r)
    with assms have p: "Path r = a" and g: "goInt (Size r)"
      by (auto simp: keyed_def ran_def)
    let ?d1 = "add d a (Size r) (Hash r) (pathToSearchTerms a)"
    from Cons.IH[of ?d1] obtain d' where d': "handleRecords ?d1 (Write db ks) = Inr d'"
      and pr: "printed d' = printed ?d1"
      and f: "\<And>k. Files d' k =
                 (if k \<in> set ks \<and> Files db k \<noteq> None then map_option reloaded (Files db k)
                  else Files ?d1 k)" by blast
    have "handleRecords d (Write db (a # ks)) = Inr d'"
      using Some p g d' by (simp add: Write_Cons handleRecord_written)
    moreover have "Files ?d1 = (Files d)(a \<mapsto> reloaded r)"
      using p by (simp add: add_def reloaded_def)
    moreover have "printed d' = printed d"
      using pr by (simp add: add_def)
    ultimately show ?thesis using f Some by auto
  qed
qed

lemma Itoa_3: "Itoa 3 = ''3''" by code_simp

lemma fast_neq_slow: "fast \<noteq> slow"
  by (simp add: fast_def slow_def)

lemma set_foundIDs:
  assumes "set ks = dom (SearchTerms db)"
  shows "set (foundIDs db needle ks) = matchSet db slow needle"
proof -
  have "set (foundIDs db needle ks) =
        (\<Union>term\<in>set ks. set (case SearchTerms db term of None \<Rightarrow> []
                                  | Some ids \<Rightarrow> if Contains term needle then ids else []))"
    by (simp add: foundIDs_def)
  also have "\<dots> = \<Union> {set ids | term ids. SearchTerms db term = Some ids \<and> Contains term needle}"
    using assms by (auto split: option.splits if_splits simp: dom_def) blast
  finally show ?thesis using fast_neq_slow by (simp add: matchSet_def)
qed

lemma slowCollectIDs_result:
  assumes "length kss = length needles" and "\<forall>ks\<in>set kss. set ks = dom (SearchTerms db)"
  shows "(snd (slowCollectIDs db needles kss acc) = [] \<and> (\<exists>n\<in>set needles. matchSet db slow n = {}))
       \<or> (\<exists>fs. snd (slowCollectIDs db needles kss acc) = acc @ fs
               \<and> map set fs = map (matchSet db slow) needles)"
  using assms
proof (induction needles arbitrary: kss acc)
  case Nil
  then show ?case by simp
next
  case (Cons n needles)
  from Cons.prems obtain ks kss' where kss: "kss = ks # kss'" by (cases kss) auto
  with Cons.prems have ks: "set ks = dom (SearchTerms db)" and l: "length kss' = length needles"
    and a: "\<forall>ks\<in>set kss'. set ks = dom (SearchTerms db)" by auto
  note m = set_foundIDs[OF ks, of n]
  show ?case
  proof (cases "foundIDs db n ks = []")
    case True
    with m have "matchSet db slow n = {}" by simp
    with True kss show ?thesis by (simp add: Let_def)
  next
    case False
    from Cons.IH[OF l a, of "acc @ [foundIDs db n ks]"] False kss m show ?thesis
      by (auto simp: Let_def)
  qed
qed

lemma fastCollectIDs_result:
  "(snd (fastCollectIDs db needles acc) = [] \<and> (\<exists>n\<in>set needles. matchSet db fast n = {}))
   \<or> (\<exists>fs. snd (fastCollectIDs db needles acc) = acc @ fs
           \<and> map set fs = map (matchSet db fast) needles)"
proof (induction needles arbitrary: acc)
  case Nil
  then show ?case by simp
next
  case (Cons n needles)
  show ?case
  proof (cases "SearchTerms db n")
    case None
    then show ?thesis by (simp add: matchSet_def bucket_def)
  next
    case (Some termIDs)
    show ?thesis
    proof (cases "termIDs = []")
      case True
      with Some show ?thesis by (simp add: matchSet_def bucket_def)
    next
      case False
      from Cons.IH[of "acc @ [termIDs]"] Some False show ?thesis
        by (auto simp: matchSet_def bucket_def)
    qed
  qed
qed

lemma set_intersectLoop: "set (intersectLoop g rest) = set g \<inter> \<Inter> (set ` set rest)"
proof (induction rest arbitrary: g)
  case Nil
  then show ?case by simp
next
  case (Cons b rest)
  have i: "set (intersectIDs g b) = set g \<inter> set b" by (auto simp: intersectIDs_def)
  show ?case
  proof (cases "intersectIDs g b = []")
    case True
    with i have "set g \<inter> set b = {}" by simp
    with True show ?thesis by (auto simp: Let_def)
  next
    case False
    with Cons.IH[of "intersectIDs g b"] i show ?thesis by (auto simp: Let_def)
  qed
qed

lemma searchDB_terms:
  "pathToSearchTerms ''bambam/foo-756381984.txt'' = [''foo'', ''756381984.txt'']"
  "pathToSearchTerms ''bambam/bar-1786396036.txt'' = [''bar'', ''1786396036.txt'']"
  "pathToSearchTerms ''bambam/baz.txt'' = [''baz.txt'']"
  "pathToSearchTerms ''bambam/quix-1786396036.txt'' = [''quix'', ''1786396036.txt'']"
  by code_simp+

lemma SearchTerms_searchDB:
  "SearchTerms searchDB =
     [''foo'' \<mapsto> [''bambam/foo-756381984.txt''],
      ''756381984.txt'' \<mapsto> [''bambam/foo-756381984.txt''],
      ''bar'' \<mapsto> [''bambam/bar-1786396036.txt''],
      ''1786396036.txt'' \<mapsto> [''bambam/bar-1786396036.txt'', ''bambam/quix-1786396036.txt''],
      ''baz.txt'' \<mapsto> [''bambam/baz.txt''],
      ''quix'' \<mapsto> [''bambam/quix-1786396036.txt'']]"
  by (rule ext) (simp add: searchDB_def add_def NewDB_def searchDB_terms appendTo_def bucket_def)

lemma enumerates_searchOrder:
  "enumerates searchOrder (SearchTerms searchDB)" "enumerates (rev searchOrder) (SearchTerms searchDB)"
  by (auto simp: enumerates_def searchOrder_def SearchTerms_searchDB)

lemma searchIDs_searchDB:
  "searchIDs searchDB slow [''bar'', ''1786396036''] [searchOrder, rev searchOrder]
   = Inr [''bambam/bar-1786396036.txt'']"
  by (simp add: searchIDs_def collectIDs_def fast_def slow_def foundIDs_def searchOrder_def
        SearchTerms_searchDB Contains_def intersectAllIDs_def intersectIDs_def)

lemma find_map_Suc: "find P (map f xs) = map_option f (find (P \<circ> f) xs)"
  by (induction xs) auto

lemma Index_find: "Index s sub = find (\<lambda>i. prefix sub (drop i s)) [0..<Suc (length s)]"
proof (induction s)
  case Nil
  show ?case by simp
next
  case (Cons c cs)
  have "[0..<Suc (length (c # cs))] = 0 # map Suc [0..<Suc (length cs)]"
    by (subst upt_rec) (simp add: map_Suc_upt del: upt_Suc)
  then show ?case
    using Cons by (simp add: find_map_Suc comp_def del: upt_Suc)
qed

lemma prefix_take_iff: "prefix t xs \<longleftrightarrow> length t \<le> length xs \<and> take (length t) xs = t"
  by (metis prefix_length_le take_is_prefix append_eq_conv_conj prefix_def)

text \<open>
  Lower-casing and trimming beyond ASCII: the lower case of \<open>U+023A\<close> is one byte
  longer, a byte that is no UTF-8 becomes \<open>U+FFFD\<close>, and \<open>U+00A0\<close> and \<open>U+0085\<close> are
  white space.
\<close>

lemma ToLower_examples:
  "ToLower [CHR 0xC8, CHR 0xBA, CHR ''A''] = [CHR 0xE2, CHR 0xB1, CHR 0xA5, CHR ''a'']"
  "ToLower [CHR 0xFF, CHR ''A''] = [CHR 0xEF, CHR 0xBF, CHR 0xBD, CHR ''a'']"
  "ToLower ''Foo-Bar.TXT'' = ''foo-bar.txt''"
  by code_simp+

lemma TrimSpace_examples:
  "TrimSpace [CHR 0xC2, CHR 0xA0, CHR ''a'', CHR '' '', CHR ''b'', CHR 0xC2, CHR 0x85, CHR 0x0A] = ''a b''"
  "TrimSpace [CHR '' '', CHR 0xC2, CHR ''a'', CHR 0xC2, CHR 0x09] = [CHR 0xC2, CHR ''a'', CHR 0xC2]"
  "TrimSpace '' 12 '' = ''12''"
  by code_simp+

lemma ToLower_ascii: "isASCII s \<Longrightarrow> ToLower s = map toLowerChar s"
  by (simp add: ToLower_def)

lemma length_ToLower: "isASCII s \<Longrightarrow> length (ToLower s) = length s"
  by (simp add: ToLower_ascii)


lemma occursIn_prefix:
  assumes "i \<le> length lower"
  shows "occursIn lower token i \<longleftrightarrow> prefix token (drop i lower)"
  using assms by (auto simp: occursIn_def prefix_take_iff)

lemma Index_firstIn: "Index lower token = firstIn lower token"
proof -
  have "find (\<lambda>i. prefix token (drop i lower)) [0..<Suc (length lower)]
        = find (occursIn lower token) [0..<Suc (length lower)]"
    by (rule find_cong) (simp_all add: occursIn_prefix less_Suc_eq_le del: upt_Suc)
  then show ?thesis by (simp add: Index_find firstIn_def del: upt_Suc)
qed

lemma find_Some_mem: "find P xs = Some x \<Longrightarrow> x \<in> set xs \<and> P x"
  by (induction xs) (auto split: if_splits)

lemma collectHighlights_found:
  "sort_key fst (collectHighlights (ToLower haystack) tokens) = foundSpans haystack tokens"
  by (simp add: collectHighlights_def foundSpans_def Index_firstIn)

lemma foundSpans_bounds:
  assumes "isASCII haystack" and "s \<in> set (foundSpans haystack tokens)"
  shows "fst s \<le> snd s \<and> snd s \<le> length haystack"
proof -
  from assms(2) obtain t i where "firstIn (ToLower haystack) t = Some i" "s = (i, i + length t)"
    by (auto simp: foundSpans_def split: option.splits)
  then show ?thesis
    using length_ToLower[OF assms(1)] by (auto simp: firstIn_def occursIn_def dest: find_Some_mem)
qed

lemma sorted_foundSpans: "sorted (map fst (foundSpans haystack tokens))"
  by (simp add: foundSpans_def)

lemma go_slice_ok: "lo \<le> hi \<Longrightarrow> hi \<le> length s \<Longrightarrow> go_slice s lo hi = Inr (take (hi - lo) (drop lo s))"
  by (simp add: go_slice_def)

lemma highlightLoop_result:
  assumes "sorted (map fst spans)"
    and "\<forall>s\<in>set spans. fst s \<le> snd s \<and> snd s \<le> length h"
    and "tmp \<le> length h"
  shows "if (\<exists>s\<in>set spans. fst s < tmp) \<or> anyClash spans
         then highlightLoop h spans tmp parts = Inr Overlap
         else \<exists>tmp' parts'. highlightLoop h spans tmp parts = Inr (Done tmp' parts')
                \<and> length parts' = length parts + 2 * length spans
                \<and> tmp' \<le> length h
                \<and> concat parts' @ drop tmp' h = concat parts @ wrapSpans h tmp spans"
  using assms
proof (induction spans arbitrary: tmp parts)
  case Nil
  then show ?case by simp
next
  case (Cons a rest)
  obtain lo hi where a: "a = (lo, hi)" by (cases a)
  from Cons.prems a have b: "lo \<le> hi" "hi \<le> length h" and s: "sorted (map fst rest)"
    and r: "\<forall>s\<in>set rest. fst s \<le> snd s \<and> snd s \<le> length h"
    and le: "\<forall>s\<in>set rest. lo \<le> fst s" by auto
  show ?case
  proof (cases "lo < tmp")
    case True
    with a show ?thesis by simp
  next
    case False
    then have t: "tmp \<le> lo" by simp
    let ?before = "take (lo - tmp) (drop tmp h)"
    let ?hit = "take (hi - lo) (drop lo h)"
    let ?parts = "parts @ [?before, redBold @ ?hit @ reset]"
    have step: "highlightLoop h (a # rest) tmp parts = highlightLoop h rest hi ?parts"
      using a t b by (simp add: go_slice_ok)
    have c1: "(\<exists>s\<in>set (a # rest). fst s < tmp) \<longleftrightarrow> False"
      using a t le by auto
    have c2: "(\<exists>b\<in>set rest. fst b < snd a) \<longleftrightarrow> (\<exists>s\<in>set rest. fst s < hi)"
      using a by simp
    note ih = Cons.IH[OF s r b(2), of ?parts]
    show ?thesis
    proof (cases "(\<exists>s\<in>set rest. fst s < hi) \<or> anyClash rest")
      case True
      with ih have "highlightLoop h rest hi ?parts = Inr Overlap" by simp
      with True c2 step show ?thesis by auto
    next
      case False
      with ih obtain tmp' parts' where
        "highlightLoop h rest hi ?parts = Inr (Done tmp' parts')"
        "length parts' = length ?parts + 2 * length rest" "tmp' \<le> length h"
        "concat parts' @ drop tmp' h = concat ?parts @ wrapSpans h hi rest" by auto
      with False c1 c2 step a show ?thesis by auto
    qed
  qed
qed

lemma FindHighlights_rendering:
  assumes "isASCII haystack"
  shows "FindHighlights haystack tokens = Inr (renderingPolicy haystack tokens)"
proof -
  let ?spans = "foundSpans haystack tokens"
  have hl: "sort_key fst (collectHighlights (ToLower haystack) tokens) = ?spans"
    by (rule collectHighlights_found)
  have bounds: "\<forall>s\<in>set ?spans. fst s \<le> snd s \<and> snd s \<le> length haystack"
    using foundSpans_bounds[OF assms] by blast
  note loop = highlightLoop_result[OF sorted_foundSpans bounds, of 0 "[]"]
  show ?thesis
  proof (cases "anyClash ?spans")
    case True
    with loop have "highlightLoop haystack ?spans 0 [] = Inr Overlap" by simp
    with True show ?thesis by (simp add: FindHighlights_def renderingPolicy_def hl)
  next
    case False
    with loop obtain tmp' parts' where l: "highlightLoop haystack ?spans 0 [] = Inr (Done tmp' parts')"
      and n: "length parts' = 2 * length ?spans" and t: "tmp' \<le> length haystack"
      and c: "concat parts' @ drop tmp' haystack = wrapSpans haystack 0 ?spans" by auto
    show ?thesis
    proof (cases "?spans = []")
      case True
      with n l False show ?thesis by (simp add: FindHighlights_def renderingPolicy_def hl Let_def)
    next
      case ne: False
      then have "length parts' \<ge> 2" using n by (cases ?spans) auto
      then have "parts' \<noteq> []" "\<not> length parts' \<le> 1" by auto
      moreover have "concat parts' = wrapSpans haystack 0 ?spans" if "\<not> tmp' < length haystack"
        using that t c by simp
      ultimately show ?thesis
        using l False ne c by (simp add: FindHighlights_def renderingPolicy_def hl Let_def)
    qed
  qed
qed








lemma FindHighlights_no_needles: "FindHighlights h [] = Inr (yellowBold @ h @ reset)"
  by (simp add: FindHighlights_def collectHighlights_def)

lemma Files_foldl_add:
  "Files (foldl (\<lambda>db p. add db p sz h (pathToSearchTerms p)) db0 ids) fid =
     (if fid \<in> set ids
      then Some \<lparr>Path = fid, Size = sz, Hash = h, RecordSearchTerms = pathToSearchTerms fid\<rparr>
      else Files db0 fid)"
  by (induction ids arbitrary: db0) (auto simp: add_def)

lemma fileAt_catalogOf:
  "fid \<in> set ids \<Longrightarrow>
   fileAt (catalogOf ids) fid = \<lparr>Path = fid, Size = 1, Hash = ''h'', RecordSearchTerms = pathToSearchTerms fid\<rparr>"
  by (simp add: fileAt_def catalogOf_def Files_foldl_add)

lemma printLines_no_needles:
  "printLines db [] i ids =
     Inr (map (\<lambda>(k, fid). MsgResultLine (k + 1) (yellowBold @ Path (fileAt db fid) @ reset)
                             (go_div (Size (fileAt db fid)) MB)) (enumerate i ids))"
  by (induction ids arbitrary: i) (simp_all add: FindHighlights_no_needles Let_def)

lemma printLines_catalogOf:
  assumes "set shown \<subseteq> set ids"
  shows "printLines (catalogOf ids) [] 0 shown = Inr (resultLines shown)"
proof -
  have "map (\<lambda>(k, fid). MsgResultLine (k + 1) (yellowBold @ Path (fileAt (catalogOf ids) fid) @ reset)
                             (go_div (Size (fileAt (catalogOf ids) fid)) MB)) (enumerate 0 shown)
        = resultLines shown"
    unfolding resultLines_def
  proof (rule map_cong[OF refl])
    fix x assume "x \<in> set (enumerate 0 shown)"
    then have "snd x \<in> set shown" by (auto simp: in_set_enumerate_eq) (metis nth_mem)
    then have "snd x \<in> set ids" using assms by blast
    then show "(case x of (k, fid) \<Rightarrow> MsgResultLine (k + 1) (yellowBold @ Path (fileAt (catalogOf ids) fid) @ reset)
                             (go_div (Size (fileAt (catalogOf ids) fid)) MB))
             = (case x of (k, fid) \<Rightarrow> MsgResultLine (k + 1) (yellowBold @ fid @ reset) 0)"
      by (cases x) (simp add: fileAt_catalogOf go_div_def MB_def)
  qed
  then show ?thesis by (simp add: printLines_no_needles)
qed

lemma drop_to_last: "length xs = Suc n \<Longrightarrow> drop n xs = [last xs]"
  by (induction xs arbitrary: n) (auto simp: drop_Cons split: nat.splits)

lemma length_hundredIDs: "length hundredIDs = 100"
  by (simp add: hundredIDs_def)

lemma f_names:
  "distinct xs \<Longrightarrow> distinct (map (\<lambda>i. ''f'' @ Itoa (int i)) xs)
     \<and> ''a'' \<notin> set (map (\<lambda>i. ''f'' @ Itoa (int i)) xs)"
  by (auto simp: distinct_map inj_on_def dest: Itoa_inj)

lemma hundredIDs_distinct: "distinct hundredIDs \<and> ''a'' \<notin> set hundredIDs"
  unfolding hundredIDs_def by (rule f_names) (rule distinct_upt)

lemma foldl_appendTo_by:
  "foldl (\<lambda>m x. appendTo m (f x) x) m0 xs k =
     (if \<exists>x\<in>set xs. f x = k then Some (bucket m0 k @ filter (\<lambda>x. f x = k) xs) else m0 k)"
proof (induction xs arbitrary: m0)
  case Nil
  show ?case by simp
next
  case (Cons x xs)
  show ?case
    unfolding foldl_Cons Cons.IH
    by (auto simp: bucket_appendTo) (simp_all add: appendTo_def bucket_def)
qed

lemma sizesOf_eq:
  "sizesOf db ids sz =
     (if \<exists>fid\<in>set ids. Size (fileAt db fid) = sz
      then Some (filter (\<lambda>fid. Size (fileAt db fid) = sz) ids) else None)"
  by (simp add: sizesOf_def foldl_appendTo_by bucket_def)

lemma groupID_inj_size: "groupID h sz = groupID h sz' \<Longrightarrow> sz = sz'"
  by (simp add: groupID_def Itoa_inj)

lemma takeWhile_dash:
  "CHR ''-'' \<notin> set h \<Longrightarrow> takeWhile (\<lambda>c. c \<noteq> CHR ''-'') (h @ CHR ''-'' # rest) = h"
  by (induction h) auto

lemma groupID_inj:
  assumes "CHR ''-'' \<notin> set h" and "CHR ''-'' \<notin> set h'" and "groupID h sz = groupID h' sz'"
  shows "h = h' \<and> sz = sz'"
proof -
  from assms(3) have "takeWhile (\<lambda>c. c \<noteq> CHR ''-'') (h @ CHR ''-'' # Itoa sz)
                    = takeWhile (\<lambda>c. c \<noteq> CHR ''-'') (h' @ CHR ''-'' # Itoa sz')"
    by (simp add: groupID_def)
  with assms(1,2) have "h = h'" by (simp add: takeWhile_dash)
  with assms(3) show ?thesis by (auto dest: groupID_inj_size)
qed

lemma hashGroups_eq:
  "hashGroups db h ids sks groups k =
     (if \<exists>sz\<in>set sks. sizesOf db ids sz \<noteq> None \<and> k = groupID h sz
      then Some (sizeGroup db ids (THE sz. k = groupID h sz))
      else groups k)"
proof (induction sks arbitrary: groups rule: rev_induct)
  case Nil
  show ?case by (simp add: hashGroups_def)
next
  case (snoc sz sks)
  have the: "(THE s. groupID h sz = groupID h s) = sz"
    by (rule the_equality) (auto dest: groupID_inj_size)
  have step: "hashGroups db h ids (sks @ [sz]) groups =
        (case sizesOf db ids sz of None \<Rightarrow> hashGroups db h ids sks groups
         | Some sizeIDs \<Rightarrow> (hashGroups db h ids sks groups)(groupID h sz \<mapsto>
             \<lparr>IDs = sort sizeIDs, GroupSearchTerms = [], Type = SizeAndHash\<rparr>))"
    unfolding hashGroups_def by simp
  show ?case
  proof (cases "sizesOf db ids sz")
    case None
    with step snoc show ?thesis by auto
  next
    case (Some sizeIDs)
    then have "sizeIDs = filter (\<lambda>fid. Size (fileAt db fid) = sz) ids"
      by (auto simp: sizesOf_eq split: if_splits)
    with step Some snoc the show ?thesis by (auto simp: sizeGroup_def)
  qed
qed


lemma hashStep_eq:
  assumes "\<forall>ids. Hashes db h = Some ids \<longrightarrow> set (sks h) = dom (sizesOf db ids)"
  shows "(case Hashes db h of
            None \<Rightarrow> groups
          | Some ids \<Rightarrow> if length ids < 2 then groups else hashGroups db h ids (sks h) groups) k
         = (if \<exists>sz. isPartition db h sz \<and> k = groupID h sz
            then Some (sizeGroup db (bucket (Hashes db) h) (THE sz. k = groupID h sz))
            else groups k)"
proof (cases "Hashes db h")
  case None
  then show ?thesis by (simp add: isPartition_def)
next
  case (Some ids)
  with assms have e: "set (sks h) = dom (sizesOf db ids)" by simp
  show ?thesis
  proof (cases "length ids < 2")
    case True
    with Some show ?thesis by (simp add: isPartition_def)
  next
    case False
    have eqv: "(\<exists>sz\<in>set (sks h). sizesOf db ids sz \<noteq> None \<and> k = groupID h sz)
          \<longleftrightarrow> (\<exists>sz. isPartition db h sz \<and> k = groupID h sz)"
      using Some False e by (auto simp: isPartition_def sizesOf_eq dom_def split: if_splits)
    have "hashGroups db h ids (sks h) groups k =
            (if \<exists>sz. isPartition db h sz \<and> k = groupID h sz
             then Some (sizeGroup db ids (THE sz. k = groupID h sz)) else groups k)"
      by (simp only: hashGroups_eq eqv)
    moreover have "bucket (Hashes db) h = ids" using Some by (simp add: bucket_def)
    ultimately show ?thesis using Some False by (simp only: option.case if_False)
  qed
qed

lemma sizeAndHashGroups_snoc:
  "sizeAndHashGroups db (hks @ [h]) sks =
     (case Hashes db h of
        None \<Rightarrow> sizeAndHashGroups db hks sks
      | Some ids \<Rightarrow> if length ids < 2 then sizeAndHashGroups db hks sks
                    else hashGroups db h ids (sks h) (sizeAndHashGroups db hks sks))"
  unfolding sizeAndHashGroups_def by simp

lemma sizeAndHashGroups_has:
  assumes "\<forall>h ids. Hashes db h = Some ids \<longrightarrow> set (sks h) = dom (sizesOf db ids)"
    and "\<forall>h\<in>set hks. CHR ''-'' \<notin> set h"
    and "h \<in> set hks" and "isPartition db h sz"
  shows "sizeAndHashGroups db hks sks (groupID h sz) = Some (sizeGroup db (bucket (Hashes db) h) sz)"
  using assms(2,3)
proof (induction hks rule: rev_induct)
  case Nil
  then show ?case by simp
next
  case (snoc x xs)
  have the: "(THE s. groupID h sz = groupID h s) = sz"
    by (rule the_equality) (auto dest: groupID_inj_size)
  note st = hashStep_eq[of db x sks "sizeAndHashGroups db xs sks" "groupID h sz", folded sizeAndHashGroups_snoc]
  show ?case
  proof (cases "x = h")
    case True
    with st assms(1,4) the show ?thesis by auto
  next
    case False
    with snoc.prems have h: "h \<in> set xs" and nd: "CHR ''-'' \<notin> set h" "CHR ''-'' \<notin> set x" by auto
    from False nd have "\<not> (\<exists>sz'. isPartition db x sz' \<and> groupID h sz = groupID x sz')"
      by (auto dest: groupID_inj)
    with st assms(1) snoc.IH h snoc.prems(1) show ?thesis by auto
  qed
qed

lemma sizeAndHashGroups_only:
  assumes "\<forall>h ids. Hashes db h = Some ids \<longrightarrow> set (sks h) = dom (sizesOf db ids)"
    and "sizeAndHashGroups db hks sks k = Some g"
  shows "\<exists>h\<in>set hks. \<exists>sz. isPartition db h sz \<and> k = groupID h sz"
  using assms(2)
proof (induction hks rule: rev_induct)
  case Nil
  then show ?case by (simp add: sizeAndHashGroups_def)
next
  case (snoc x xs)
  note st = hashStep_eq[of db x sks "sizeAndHashGroups db xs sks" k, folded sizeAndHashGroups_snoc]
  show ?case
  proof (cases "\<exists>sz. isPartition db x sz \<and> k = groupID x sz")
    case True
    then show ?thesis by auto
  next
    case False
    with st assms(1) snoc.prems have "sizeAndHashGroups db xs sks k = Some g" by auto
    with snoc.IH show ?thesis by auto
  qed
qed

lemma enumerates_sizeOrderOf:
  "Hashes db h = Some ids \<Longrightarrow> enumerates (sizeOrderOf db h) (sizesOf db ids)"
  by (auto simp: enumerates_def sizeOrderOf_def bucket_def sizesOf_eq dom_def split: if_splits)

lemma Hashes_searchDB:
  "Hashes searchDB =
     [''464f'' \<mapsto> [''bambam/foo-756381984.txt'', ''bambam/baz.txt''],
      ''4d09'' \<mapsto> [''bambam/bar-1786396036.txt''],
      ''788b'' \<mapsto> [''bambam/quix-1786396036.txt'']]"
  by (rule ext) (simp add: searchDB_def add_def NewDB_def appendTo_def bucket_def)

lemma Sizes_in_searchDB:
  "Size (fileAt searchDB ''bambam/foo-756381984.txt'') = 756381984"
  "Size (fileAt searchDB ''bambam/baz.txt'') = 756381984"
  "Size (fileAt searchDB ''bambam/bar-1786396036.txt'') = 1786396036"
  "Size (fileAt searchDB ''bambam/quix-1786396036.txt'') = 123"
  by (simp_all add: fileAt_def searchDB_def add_def NewDB_def)

lemma Itoa_756381984: "Itoa 756381984 = ''756381984''"
  by (simp add: Itoa_def digits.simps digit_char_def char_of_eq_iff)

lemma groups_searchDB:
  "sizeAndHashGroups searchDB hashOrder3 (sizeOrderOf searchDB) =
     [''464f-756381984'' \<mapsto>
        \<lparr>IDs = [''bambam/baz.txt'', ''bambam/foo-756381984.txt''], GroupSearchTerms = [],
         Type = SizeAndHash\<rparr>]"
  by (simp add: sizeAndHashGroups_def hashOrder3_def Hashes_searchDB hashGroups_def sizeOrderOf_def
        bucket_def Sizes_in_searchDB sizesOf_def appendTo_def groupID_def Itoa_756381984)

text \<open>
  The panics modelled in \<open>FindHighlights\<close>, \<open>PrintIDs\<close> and \<open>Load\<close>: on an ASCII
  haystack the slices of \<open>FindHighlights\<close> are within bounds, so it returns, and so does
  \<open>PrintIDs\<close> on records with ASCII paths; \<open>Load\<close> returns on rows of at least three
  fields. And what a scan leaves in \<open>db.Files\<close>: it removes every path that has the root
  as a string prefix and was not found.
\<close>

lemma FindHighlights_returns:
  "isASCII haystack \<Longrightarrow> \<exists>s. FindHighlights haystack needles = Inr s"
  by (simp add: FindHighlights_rendering)

lemma printLines_returns:
  assumes "\<forall>fid\<in>set ids. isASCII (Path (fileAt db fid))"
  shows "\<exists>lines. printLines db needles i ids = Inr lines \<and> length lines = length ids
           \<and> MsgTruncated \<notin> set lines"
  using assms
proof (induction ids arbitrary: i)
  case Nil
  show ?case by simp
next
  case (Cons fid ids)
  from Cons.prems FindHighlights_returns obtain p where
    "FindHighlights (Path (fileAt db fid)) needles = Inr p" by fastforce
  moreover from Cons.IH[of "i + 1"] Cons.prems obtain rest where
    "printLines db needles (i + 1) ids = Inr rest" "length rest = length ids" "MsgTruncated \<notin> set rest"
    by auto
  ultimately show ?case by (simp add: Let_def)
qed

lemma PrintIDs_returns:
  assumes "\<forall>fid\<in>set ids. isASCII (Path (fileAt db fid))"
  shows "\<exists>shown. PrintIDs db ids needles =
             Inr (shown @ (if maxLines \<le> length ids then [MsgTruncated] else []),
                  sort (take maxLines ids) @ drop maxLines ids)
           \<and> length shown = min maxLines (length ids) \<and> MsgTruncated \<notin> set shown"
proof -
  let ?ids = "sort (if length ids > maxLines then take maxLines ids else ids)"
  have s: "?ids = sort (take maxLines ids)" by simp
  have "\<forall>fid\<in>set ?ids. isASCII (Path (fileAt db fid))"
    using assms by (auto dest: in_set_takeD)
  from printLines_returns[OF this, of needles 0] obtain shown where
    "printLines db needles 0 ?ids = Inr shown" "length shown = length ?ids"
    "MsgTruncated \<notin> set shown" by blast
  then show ?thesis
    unfolding PrintIDs_def Let_def s by (auto simp: min_def)
qed

lemma handleRecord_three_fields:
  assumes "3 \<le> length row"
  shows "handleRecord db row =
           (case Atoi (row ! 1) of
              None \<Rightarrow> Inr (db\<lparr>printed := printed db @ [MsgUnableToParseSize (row ! 0) (row ! 1)]\<rparr>)
            | Some sz \<Rightarrow> Inr (add db (row ! 0) sz (row ! 2) (pathToSearchTerms (row ! 0))))"
  using assms by (simp add: handleRecord_def split: option.splits)

lemma Load_three_fields:
  assumes "\<forall>row\<in>set rows. 3 \<le> length row"
  shows "\<exists>db'. Load db (Rows rows) = Inr db'"
  using assms
proof (induction rows arbitrary: db)
  case Nil
  show ?case by (simp add: Load_def)
next
  case (Cons row rows)
  then have "3 \<le> length row" by simp
  then obtain db1 where "handleRecord db row = Inr db1"
    by (cases "Atoi (row ! 1)") (simp_all add: handleRecord_three_fields)
  with Cons show ?case by (simp add: Load_def)
qed

lemma handleMatches_Files:
  assumes "keyed db" and "dom (Files db) \<union> set files \<subseteq> set ks"
  shows "Files (handleMatches fs db root files ks) k =
           (if HasPrefix k root \<and> k \<notin> set files then None
            else Files (fst (addFound fs files (db, 0, 0))) k)"
proof -
  obtain dbA s c where a: "addFound fs files (db, 0, 0) = (dbA, s, c)" by (metis prod_cases3)
  obtain dbB d where b: "removeMissing root files ks (dbA, 0) = (dbB, d)" by (metis prod.exhaust)
  from addFound_Files[OF a] assms(1)
  have kA: "keyed dbA" and "dom (Files dbA) \<subseteq> dom (Files db) \<union> set files" by blast+
  with assms(2) have domA: "dom (Files dbA) \<subseteq> set ks" by blast
  from removeMissing_result[OF kA, of root files ks 0] b
  have "Files dbB k = (if k \<in> set ks \<and> Files dbA k \<noteq> None \<and> HasPrefix k root \<and> k \<notin> set files
                       then None else Files dbA k)" by simp
  moreover have "Files dbA k = None \<or> k \<in> set ks" using domA by (auto simp: dom_def)
  ultimately have "Files dbB k = (if HasPrefix k root \<and> k \<notin> set files then None else Files dbA k)"
    by (cases "Files dbA k") auto
  with a b show ?thesis by (simp add: handleMatches_def)
qed

lemma triples_add_NewDB: "triples (add NewDB p sz h ts) = {(p, sz, h)}"
  by (auto simp: triples_def add_def NewDB_def ran_def)

lemma crlfDB_Files:
  "Files crlfDB = [crlfPath \<mapsto> \<lparr>Path = crlfPath, Size = 3, Hash = ''h'',
                                   RecordSearchTerms = pathToSearchTerms crlfPath\<rparr>]"
  by (simp add: crlfDB_def add_def NewDB_def)

lemma keyed_crlfDB: "keyed crlfDB"
  by (simp add: keyed_def crlfDB_Files)

lemma quotedDB_Files:
  "Files quotedDB = [quotedPath \<mapsto> \<lparr>Path = quotedPath, Size = 3, Hash = ''h'',
                                       RecordSearchTerms = pathToSearchTerms quotedPath\<rparr>]"
  by (simp add: quotedDB_def add_def NewDB_def)

lemma keyed_quotedDB: "keyed quotedDB"
  by (simp add: keyed_def quotedDB_Files)

text \<open>
  What \<open>csv.Reader\<close> reads from what \<open>csv.Writer\<close> wrote. \<open>firstLine\<close> and \<open>afterLine\<close>
  cut a text at its first line feed; on a text in which no carriage return is followed
  by a line feed that is what \<open>readLine\<close> does, and \<open>parseText\<close> is \<open>parseField\<close> on the
  text so cut. The reader then undoes the writer field by field.
\<close>

lemma chars_neq [simp]:
  "NL \<noteq> CR" "CR \<noteq> NL" "NL \<noteq> Quote" "Quote \<noteq> NL" "NL \<noteq> Comma" "Comma \<noteq> NL"
  "Quote \<noteq> Comma" "Comma \<noteq> Quote" "CR \<noteq> Quote" "Quote \<noteq> CR" "CR \<noteq> Comma" "Comma \<noteq> CR"
  by (simp_all add: NL_def CR_def Quote_def Comma_def)

lemma hasCRLF_suffix: "\<not> hasCRLF (u @ v) \<Longrightarrow> \<not> hasCRLF v"
  by (induction u) auto

lemma hasCRLF_append:
  assumes "\<not> hasCRLF u" and "\<not> hasCRLF v" and "u = [] \<or> last u \<noteq> CR \<or> v = [] \<or> hd v \<noteq> NL"
  shows "\<not> hasCRLF (u @ v)"
  using assms by (induction u) (auto split: if_splits)

lemma hasCRLF_no_CR: "CR \<notin> set s \<Longrightarrow> \<not> hasCRLF s"
  by (induction s) auto

lemma last_before_NL:
  assumes "\<not> hasCRLF (u @ NL # v)" and "u \<noteq> []"
  shows "last u \<noteq> CR"
  using assms by (induction u) (auto split: if_splits)

lemma readLine_text:
  assumes "NL \<in> set text" and "\<not> hasCRLF text"
  shows "readLine text = (firstLine text, False, afterLine text)"
proof -
  let ?pre = "takeWhile (\<lambda>c. c \<noteq> NL) text" and ?post = "dropWhile (\<lambda>c. c \<noteq> NL) text"
  from assms(1) have post: "?post \<noteq> []" by (simp add: dropWhile_eq_Nil_conv)
  then have "hd ?post = NL" using hd_dropWhile[of "\<lambda>c. c \<noteq> NL" "text"] by auto
  with post have "?post = NL # tl ?post" by (cases "?post") auto
  then have "text = ?pre @ NL # tl ?post" by (metis takeWhile_dropWhile_id)
  with assms(2) have "?pre \<noteq> [] \<Longrightarrow> last ?pre \<noteq> CR"
    using last_before_NL[of "?pre" "tl ?post"] by simp
  with post show ?thesis by (auto simp: readLine_def Let_def firstLine_def afterLine_def)
qed

lemma firstLine_Cons: "c \<noteq> NL \<Longrightarrow> firstLine (c # text) = c # firstLine text"
  by (simp add: firstLine_def)

lemma afterLine_Cons: "c \<noteq> NL \<Longrightarrow> afterLine (c # text) = afterLine text"
  by (simp add: afterLine_def)

lemma firstLine_NL: "firstLine (NL # text) = [NL]"
  by (simp add: firstLine_def)

lemma afterLine_NL: "afterLine (NL # text) = text"
  by (simp add: afterLine_def)

lemma firstLine_append: "NL \<notin> set u \<Longrightarrow> firstLine (u @ text) = u @ firstLine text"
  by (induction u) (auto simp: firstLine_Cons)

lemma afterLine_append: "NL \<notin> set u \<Longrightarrow> afterLine (u @ text) = afterLine text"
  by (induction u) (auto simp: afterLine_Cons)

lemma firstLine_ne [simp]: "firstLine text \<noteq> []"
  by (simp add: firstLine_def)

lemma quoted_char:
  assumes "c \<noteq> Quote" and "c \<noteq> NL"
  shows "parseText (Quoted buf) (c # text) dst = parseText (Quoted (buf @ [c])) text dst"
proof (cases "Quote \<in> set (firstLine text)")
  case True
  with assms show ?thesis
    by (simp add: parseText_def firstLine_Cons afterLine_Cons parseField.simps(2)[of buf]
        parseField.simps(2)[of "buf @ [c]"] Let_def)
next
  case False
  with assms show ?thesis
    by (simp add: parseText_def firstLine_Cons afterLine_Cons parseField.simps(2)[of buf]
        parseField.simps(2)[of "buf @ [c]"])
qed

lemma quoted_NL:
  assumes "NL \<in> set text" and "\<not> hasCRLF text"
  shows "parseText (Quoted buf) (NL # text) dst = parseText (Quoted (buf @ [NL])) text dst"
  using readLine_text[OF assms]
  by (simp add: parseText_def firstLine_NL afterLine_NL parseField.simps(2)[of buf])

lemma quoted_Quote_Quote:
  "parseText (Quoted buf) (Quote # Quote # text) dst = parseText (Quoted (buf @ [Quote])) text dst"
  by (simp add: parseText_def firstLine_Cons afterLine_Cons parseField.simps(2)[of buf] Let_def)

lemma quoted_Quote_Comma:
  "parseText (Quoted buf) (Quote # Comma # text) dst = parseText Unquoted text (dst @ [buf])"
  by (simp add: parseText_def firstLine_Cons afterLine_Cons parseField.simps(2)[of buf] Let_def)

lemma quoted_Quote_NL:
  "parseText (Quoted buf) (Quote # NL # text) dst = Some (dst @ [buf], text)"
  by (simp add: parseText_def firstLine_Cons afterLine_Cons firstLine_NL afterLine_NL
      parseField.simps(2)[of buf] Let_def lengthNL_def)

lemma quoted_field:
  assumes "\<not> hasCRLF (quoted field @ Quote # text)" and "NL \<in> set text"
  shows "parseText (Quoted buf) (quoted field @ Quote # text) dst
         = parseText (Quoted (buf @ field)) (Quote # text) dst"
  using assms
proof (induction field arbitrary: buf)
  case Nil
  then show ?case by simp
next
  case (Cons c field)
  from Cons.prems(1) have free: "\<not> hasCRLF (quoted field @ Quote # text)"
    using hasCRLF_suffix[of "if c = Quote then [Quote, Quote] else [c]" "quoted field @ Quote # text"]
    by simp
  show ?case
  proof (cases "c = Quote")
    case True
    with free Cons.IH[of "buf @ [Quote]"] Cons.prems(2) show ?thesis
      by (simp add: quoted_Quote_Quote)
  next
    case nq: False
    show ?thesis
    proof (cases "c = NL")
      case True
      with nq free Cons.IH[of "buf @ [NL]"] Cons.prems(2) show ?thesis
        by (simp add: quoted_NL)
    next
      case False
      with nq free Cons.IH[of "buf @ [c]"] Cons.prems(2) show ?thesis
        by (simp add: quoted_char)
    qed
  qed
qed

lemma not_quoted_plain: "\<not> fieldNeedsQuotes field \<Longrightarrow> plain field"
  by (auto simp: fieldNeedsQuotes_def plain_def list_ex_iff split: if_splits)

lemma takeWhile_upto: "c \<notin> set u \<Longrightarrow> takeWhile (\<lambda>x. x \<noteq> c) (u @ c # v) = u"
  by (induction u) auto

lemma dropWhile_upto: "c \<notin> set u \<Longrightarrow> dropWhile (\<lambda>x. x \<noteq> c) (u @ c # v) = c # v"
  by (induction u) auto

lemma unquoted_Comma:
  assumes "plain field"
  shows "parseText Unquoted (field @ Comma # text) dst = parseText Unquoted text (dst @ [field])"
proof -
  from assms have fl: "firstLine (field @ Comma # text) = field @ Comma # firstLine text"
    and al: "afterLine (field @ Comma # text) = afterLine text"
    by (simp_all add: plain_def firstLine_append afterLine_append firstLine_Cons afterLine_Cons)
  from assms have hd: "hd (field @ Comma # firstLine text) \<noteq> Quote"
    by (cases field) (auto simp: plain_def)
  from assms have tw: "takeWhile (\<lambda>c. c \<noteq> Comma) (field @ Comma # firstLine text) = field"
    and dw: "dropWhile (\<lambda>c. c \<noteq> Comma) (field @ Comma # firstLine text) = Comma # firstLine text"
    by (simp_all add: plain_def takeWhile_upto dropWhile_upto)
  from assms hd tw dw show ?thesis
    by (simp add: parseText_def fl al parseField.simps(1)[of "field @ Comma # firstLine text"]
        Let_def plain_def)
qed

lemma unquoted_NL:
  assumes "plain field"
  shows "parseText Unquoted (field @ NL # text) dst = Some (dst @ [field], text)"
proof -
  from assms have fl: "firstLine (field @ NL # text) = field @ [NL]"
    and al: "afterLine (field @ NL # text) = text"
    by (simp_all add: plain_def firstLine_append afterLine_append firstLine_NL afterLine_NL)
  from assms have hd: "hd (field @ [NL]) \<noteq> Quote"
    by (cases field) (auto simp: plain_def)
  from assms hd show ?thesis
    by (simp add: parseText_def fl al parseField.simps(1)[of "field @ [NL]"] Let_def plain_def
        lengthNL_def)
qed

lemma unquoted_Quote:
  "parseText Unquoted (Quote # text) dst = parseText (Quoted []) text dst"
  by (simp add: parseText_def firstLine_Cons afterLine_Cons parseField.simps(1)[of "Quote # firstLine text"])

lemma written_field_Comma:
  assumes "\<not> hasCRLF (writeField field @ Comma # text)" and "NL \<in> set text"
  shows "parseText Unquoted (writeField field @ Comma # text) dst
         = parseText Unquoted text (dst @ [field])"
proof (cases "fieldNeedsQuotes field")
  case True
  with assms(1) have "\<not> hasCRLF (quoted field @ Quote # Comma # text)"
    using hasCRLF_suffix[of "[Quote]" "quoted field @ Quote # Comma # text"]
    by (simp add: writeField_def)
  then have "parseText (Quoted []) (quoted field @ Quote # Comma # text) dst
             = parseText (Quoted ([] @ field)) (Quote # Comma # text) dst"
    using assms(2) by (intro quoted_field) auto
  with True show ?thesis by (simp add: writeField_def unquoted_Quote quoted_Quote_Comma)
next
  case False
  then show ?thesis by (simp add: writeField_def unquoted_Comma not_quoted_plain)
qed

lemma written_field_NL:
  assumes "\<not> hasCRLF (writeField field @ NL # text)"
  shows "parseText Unquoted (writeField field @ NL # text) dst = Some (dst @ [field], text)"
proof (cases "fieldNeedsQuotes field")
  case True
  with assms have "\<not> hasCRLF (quoted field @ Quote # NL # text)"
    using hasCRLF_suffix[of "[Quote]" "quoted field @ Quote # NL # text"]
    by (simp add: writeField_def)
  then have "parseText (Quoted []) (quoted field @ Quote # NL # text) dst
             = parseText (Quoted ([] @ field)) (Quote # NL # text) dst"
    by (intro quoted_field) auto
  with True show ?thesis by (simp add: writeField_def unquoted_Quote quoted_Quote_NL)
next
  case False
  then show ?thesis by (simp add: writeField_def unquoted_NL not_quoted_plain)
qed

lemma written_fields:
  assumes "row \<noteq> []" and "\<not> hasCRLF (writeFields row @ NL # text)"
  shows "parseText Unquoted (writeFields row @ NL # text) dst = Some (dst @ row, text)"
  using assms
proof (induction row arbitrary: dst rule: writeFields.induct)
  case 1
  then show ?case by simp
next
  case (2 field)
  then show ?case by (simp add: written_field_NL)
next
  case (3 field g row)
  from 3(3) have free: "\<not> hasCRLF (writeFields (g # row) @ NL # text)"
    using hasCRLF_suffix[of "writeField field @ [Comma]" "writeFields (g # row) @ NL # text"] by simp
  from 3(3) have "parseText Unquoted (writeField field @ Comma # writeFields (g # row) @ NL # text) dst
        = parseText Unquoted (writeFields (g # row) @ NL # text) (dst @ [field])"
    by (intro written_field_Comma) auto
  with 3(1)[OF _ free, of "dst @ [field]"] show ?case by simp
qed

lemma quoted_Nil_iff [simp]: "quoted field = [] \<longleftrightarrow> field = []"
  by (cases field) auto

lemma hd_quoted: "field \<noteq> [] \<Longrightarrow> hd (quoted field) = NL \<longleftrightarrow> hd field = NL"
  by (cases field) auto

lemma quoted_free: "\<not> hasCRLF field \<Longrightarrow> \<not> hasCRLF (quoted field)"
proof (induction field)
  case Nil
  show ?case by simp
next
  case (Cons c field)
  then have tail: "\<not> hasCRLF (quoted field)" by simp
  have "\<not> hasCRLF ((if c = Quote then [Quote, Quote] else [c]) @ quoted field)"
  proof (rule hasCRLF_append)
    show "\<not> hasCRLF (if c = Quote then [Quote, Quote] else [c])" by simp
    show "\<not> hasCRLF (quoted field)" by (rule tail)
    show "(if c = Quote then [Quote, Quote] else [c]) = []
          \<or> last (if c = Quote then [Quote, Quote] else [c]) \<noteq> CR
          \<or> quoted field = [] \<or> hd (quoted field) \<noteq> NL"
      using Cons.prems hd_quoted[of field] by (cases field) auto
  qed
  then show ?case by simp
qed

lemma writeField_free:
  assumes "\<not> hasCRLF field"
  shows "\<not> hasCRLF (writeField field)"
proof (cases "fieldNeedsQuotes field")
  case True
  have "\<not> hasCRLF (quoted field @ [Quote])"
    using hasCRLF_append[of "quoted field" "[Quote]"] quoted_free[OF assms] by simp
  then have "\<not> hasCRLF ([Quote] @ quoted field @ [Quote])"
    using hasCRLF_append[of "[Quote]" "quoted field @ [Quote]"] by simp
  with True show ?thesis by (simp add: writeField_def)
next
  case False
  with assms show ?thesis by (simp add: writeField_def)
qed

lemma writeField_last: "writeField field \<noteq> [] \<Longrightarrow> last (writeField field) \<noteq> CR"
proof (cases "fieldNeedsQuotes field")
  case True
  then show ?thesis by (simp add: writeField_def)
next
  case False
  assume "writeField field \<noteq> []"
  with False have "field \<noteq> []" and "CR \<notin> set field"
    using not_quoted_plain[of field] by (auto simp: writeField_def plain_def)
  then have "last field \<noteq> CR" using last_in_set[of field] by metis
  with False show ?thesis by (simp add: writeField_def)
qed

lemma writeField_hd: "writeField field \<noteq> [] \<Longrightarrow> hd (writeField field) \<noteq> NL"
  using not_quoted_plain[of field] by (cases field) (auto simp: writeField_def plain_def)

lemma writeFields_free:
  assumes "\<forall>field\<in>set row. \<not> hasCRLF field"
  shows "\<not> hasCRLF (writeFields row) \<and> (writeFields row \<noteq> [] \<longrightarrow> last (writeFields row) \<noteq> CR)"
  using assms
proof (induction row rule: writeFields.induct)
  case 1
  then show ?case by simp
next
  case (2 field)
  then show ?case by (simp add: writeField_free writeField_last)
next
  case (3 field g row)
  then have tail: "\<not> hasCRLF (writeFields (g # row))"
    and lst: "writeFields (g # row) \<noteq> [] \<longrightarrow> last (writeFields (g # row)) \<noteq> CR" by auto
  have "\<not> hasCRLF ([Comma] @ writeFields (g # row))"
    using hasCRLF_append[of "[Comma]" "writeFields (g # row)"] tail by simp
  then have "\<not> hasCRLF (writeField field @ [Comma] @ writeFields (g # row))"
    using hasCRLF_append[of "writeField field" "[Comma] @ writeFields (g # row)"] 3(2)
    by (simp add: writeField_free)
  moreover have "last (writeField field @ Comma # writeFields (g # row)) \<noteq> CR"
    using lst by auto
  ultimately show ?case by simp
qed

lemma csv_Write_free:
  assumes "\<forall>field\<in>set row. \<not> hasCRLF field"
  shows "\<not> hasCRLF (csv_Write row)"
  unfolding csv_Write_def
  using writeFields_free[OF assms] hasCRLF_append[of "writeFields row" "[NL]"] by auto

lemma csvOutput_free:
  assumes "\<forall>row\<in>set rows. \<forall>field\<in>set row. \<not> hasCRLF field"
  shows "\<not> hasCRLF (csvOutput rows)"
  using assms
proof (induction rows)
  case Nil
  then show ?case by (simp add: csvOutput_def)
next
  case (Cons row rows)
  then have "\<not> hasCRLF (csv_Write row)" and "\<not> hasCRLF (csvOutput rows)"
    by (simp_all add: csv_Write_free)
  then have "\<not> hasCRLF (csv_Write row @ csvOutput rows)"
    using hasCRLF_append[of "csv_Write row" "csvOutput rows"] by (auto simp: csv_Write_def)
  then show ?case by (simp add: csvOutput_def)
qed

lemma readRecord_written:
  assumes "2 \<le> length row" and "\<not> hasCRLF (csv_Write row @ rest)"
  shows "readRecord (csv_Write row @ rest) = Fields row rest"
proof -
  let ?t = "csv_Write row @ rest"
  have shape: "?t = writeFields row @ NL # rest" by (simp add: csv_Write_def)
  have rl: "readLine ?t = (firstLine ?t, False, afterLine ?t)"
    using assms(2) by (intro readLine_text) (simp_all add: csv_Write_def)
  from assms(1) obtain field g row' where row: "row = field # g # row'"
    by (cases row; cases "tl row") auto
  have "writeFields row @ NL # rest \<noteq> [] \<and> hd (writeFields row @ NL # rest) \<noteq> NL"
    using writeField_hd[of field] by (cases "writeField field") (auto simp: row)
  then have "takeWhile (\<lambda>c. c \<noteq> NL) ?t \<noteq> []"
    unfolding shape by (cases "writeFields row @ NL # rest") auto
  then have notblank: "length (firstLine ?t) \<noteq> lengthNL (firstLine ?t)"
    by (simp add: firstLine_def lengthNL_def)
  have "row \<noteq> []" and "\<not> hasCRLF (writeFields row @ NL # rest)"
    using assms(2) row by (simp_all add: csv_Write_def)
  then have "parseText Unquoted (writeFields row @ NL # rest) [] = Some ([] @ row, rest)"
    by (rule written_fields)
  then have "parseField Unquoted (firstLine ?t) (afterLine ?t) [] = Some (row, rest)"
    by (simp add: parseText_def shape)
  with rl notblank show ?thesis by (subst readRecord.simps) simp
qed

lemma readRecord_Nil: "readRecord [] = EndOfFile"
  by (subst readRecord.simps) (simp add: readLine_def)

lemma readRecords_written:
  assumes "\<forall>row\<in>set rows. length row = n \<and> (\<forall>field\<in>set row. \<not> hasCRLF field)" and "2 \<le> n"
    and "k = 0 \<or> k = n"
  shows "readRecords k (csvOutput rows) = Some rows"
  using assms
proof (induction rows arbitrary: k)
  case Nil
  then show ?case by (subst readRecords.simps) (simp add: csvOutput_def readRecord_Nil)
next
  case (Cons row rows)
  have "\<not> hasCRLF (csvOutput (row # rows))"
    using Cons.prems(1) by (intro csvOutput_free) auto
  then have free: "\<not> hasCRLF (csv_Write row @ csvOutput rows)" by (simp add: csvOutput_def)
  from Cons.prems have len: "length row = n" by simp
  with Cons.prems(2) free have rr: "readRecord (csv_Write row @ csvOutput rows) = Fields row (csvOutput rows)"
    by (intro readRecord_written) auto
  have "readRecords (if k = 0 then length row else k) (csvOutput rows) = Some rows"
    using Cons.prems len by (intro Cons.IH) auto
  with rr len Cons.prems(3) show ?case
    by (subst readRecords.simps) (auto simp: csvOutput_def)
qed

lemma ReadAll_csvOutput:
  assumes "\<forall>row\<in>set rows. length row = 3 \<and> (\<forall>field\<in>set row. \<not> hasCRLF field)"
  shows "ReadAll (csvOutput rows) = Some rows"
  unfolding ReadAll_def using assms by (intro readRecords_written[where n = 3]) auto

lemma Itoa_free: "\<not> hasCRLF (Itoa i)"
proof -
  have "CR \<notin> set (digits n)" for n
    using digits_props[of n] by (auto simp: list_all_iff isDigit_iff CR_def)
  then have "CR \<notin> set (Itoa i)" by (simp add: Itoa_def CR_def)
  then show ?thesis by (rule hasCRLF_no_CR)
qed

lemma readCsvFile_Write:
  assumes "\<forall>r \<in> ran (Files db). \<not> hasCRLF (Path r) \<and> \<not> hasCRLF (Hash r)"
  shows "readCsvFile (Some (csvOutput (Write db ks))) = Rows (Write db ks)"
proof -
  have "length row = 3 \<and> (\<forall>field\<in>set row. \<not> hasCRLF field)" if "row \<in> set (Write db ks)" for row
  proof -
    from that obtain r where "r \<in> ran (Files db)" "row = [Path r, Itoa (Size r), Hash r]"
      by (auto simp: Write_rows ran_def)
    with assms show ?thesis by (auto simp: Itoa_free)
  qed
  then have "ReadAll (csvOutput (Write db ks)) = Some (Write db ks)"
    by (intro ReadAll_csvOutput) blast
  then show ?thesis by (simp add: readCsvFile_def)
qed

text \<open>
  The reader on some files: empty lines are skipped and a carriage return before the
  line feed is dropped; a record with another number of fields than the first, a quote
  inside a field that did not start with one, and a quoted field that does not end are
  errors; a quoted field may hold commas and line feeds. And a file whose only line has
  two fields is read as one row of two fields.
\<close>

lemma ReadAll_examples:
  "ReadAll (''a,b'' @ [NL, NL, CR, NL] @ ''c,d'' @ [CR, NL]) = Some [[''a'', ''b''], [''c'', ''d'']]"
  "ReadAll (''a,b'' @ [NL] @ ''c'' @ [NL]) = None"
  "ReadAll (''a'' @ [Quote] @ ''b'' @ [NL]) = None"
  "ReadAll ([Quote] @ ''a,b'' @ [NL]) = None"
  "ReadAll ([Quote] @ ''a,b'' @ [NL] @ ''c'' @ [Quote] @ '',d'') = Some [[''a,b'' @ [NL] @ ''c'', ''d'']]"
  by code_simp+

lemma readCsvFile_short_row:
  "readCsvFile (Some (''a.txt,1'' @ [NL])) = Rows [[''a.txt'', ''1'']]"
  by code_simp

section \<open>Claims\<close>

text \<open>
  C1 (after every operation the three indices are exact denormalizations of \<open>Files\<close>).
  Not as stated: the two removals (the second loop of \<open>handleMatches\<close> and \<open>deleteFile\<close>)
  delete from \<open>db.Files\<close> only, so a bucket keeps the path of a removed record. After
  loading two records and scanning a root in which one of the two files is gone, the path
  of the removed record is still in the bucket of its size.
\<close>

theorem indices_keep_removed_paths:
  "(case steps NewDB loadThenScan of
      Inl e \<Rightarrow> False
    | Inr db \<Rightarrow> Files db ''r/a.txt'' = None \<and> ''r/a.txt'' \<in> set (bucket (Sizes db) 3)
               \<and> \<not> denormalized db)"
proof -
  let ?db = "twoFilesDB\<lparr>Files := (Files twoFilesDB)(''r/a.txt'' := None),
                     printed := [MsgScanReport ''r'' 1 1 0 1]\<rparr>"
  have 1: "Files ?db ''r/a.txt'' = None" by simp
  have 2: "''r/a.txt'' \<in> set (bucket (Sizes ?db) 3)" by (simp add: Sizes_twoFilesDB bucket_def)
  have "\<not> denormalized ?db"
  proof
    assume "denormalized ?db"
    then have "''r/a.txt'' \<in> set (bucket (Sizes ?db) 3) \<longleftrightarrow> (\<exists>r. Files ?db ''r/a.txt'' = Some r \<and> Size r = 3)"
      unfolding denormalized_def by blast
    with 1 2 show False by simp
  qed
  with 1 2 show ?thesis by (simp add: steps_loadThenScan)
qed

text \<open>
  C1, amended: after every sequence of \<open>Load\<close>, \<open>Scan\<close> and \<open>Duplicates\<close> on a new store,
  every record of \<open>Files\<close> is stored at its path and that path is in the bucket of the
  record's size, of its hash and of each search term derived from the path. (The
  converse is what the removals give up.)
\<close>

theorem indexed_steps:
  assumes "steps NewDB ops = Inr db"
  shows "indexed db"
proof -
  have "indexed d \<Longrightarrow> steps d ops = Inr db \<Longrightarrow> indexed db" for d
  proof (induction ops arbitrary: d)
    case Nil
    then show ?case by simp
  next
    case (Cons opn ops)
    then show ?case by (auto split: sum.splits dest: indexed_step)
  qed
  with assms indexed_NewDB show ?thesis by blast
qed

theorem indexed_steps_witness:
  "steps NewDB loadThenScan =
     Inr (twoFilesDB\<lparr>Files := (Files twoFilesDB)(''r/a.txt'' := None),
                     printed := [MsgScanReport ''r'' 1 1 0 1]\<rparr>)
   \<and> indexed (twoFilesDB\<lparr>Files := (Files twoFilesDB)(''r/a.txt'' := None),
                     printed := [MsgScanReport ''r'' 1 1 0 1]\<rparr>)"
  using indexed_steps [OF steps_loadThenScan] steps_loadThenScan by simp

text \<open>
  C2 (decoding what encoding produces gives back the same set of (path, size, hash)
  triples, for every finite set of records). Not as stated: the CSV reader turns a
  carriage return and line feed into a line feed, also inside a quoted field, so a
  record whose path holds these two bytes comes back under another path. The store
  \<open>crlfDB\<close> holds its record at its path with a size that is a Go \<open>int\<close>; the file
  written for it is read and loaded without an error, and the store loaded holds the
  path \<open>lfPath\<close> where \<open>crlfDB\<close> holds \<open>crlfPath\<close>.
\<close>

theorem Load_Write_loses_carriage_return:
  "keyed crlfDB \<and> goInt 3 \<and> enumerates [crlfPath] (Files crlfDB)
   \<and> triples crlfDB = {(''a'' @ [CR, NL] @ ''b'', 3, ''h'')}
   \<and> csvOutput (Write crlfDB [crlfPath])
       = [Quote] @ ''a'' @ [CR, NL] @ ''b'' @ [Quote] @ '',3,h'' @ [NL]
   \<and> readCsvFile (Some (csvOutput (Write crlfDB [crlfPath])))
       = Rows [[''a'' @ [NL] @ ''b'', ''3'', ''h'']]
   \<and> Load NewDB (readCsvFile (Some (csvOutput (Write crlfDB [crlfPath]))))
       = Inr (add NewDB lfPath 3 ''h'' (pathToSearchTerms lfPath))
   \<and> triples (add NewDB lfPath 3 ''h'' (pathToSearchTerms lfPath))
       = {(''a'' @ [NL] @ ''b'', 3, ''h'')}
   \<and> triples (add NewDB lfPath 3 ''h'' (pathToSearchTerms lfPath)) \<noteq> triples crlfDB"
proof -
  have w: "Write crlfDB [crlfPath] = [[crlfPath, ''3'', ''h'']]"
    by (simp add: Write_def crlfDB_Files Itoa_3)
  have o: "csvOutput [[crlfPath, ''3'', ''h'']]
           = [Quote] @ ''a'' @ [CR, NL] @ ''b'' @ [Quote] @ '',3,h'' @ [NL]"
    by code_simp
  have r: "readCsvFile (Some ([Quote] @ ''a'' @ [CR, NL] @ ''b'' @ [Quote] @ '',3,h'' @ [NL]))
           = Rows [[lfPath, ''3'', ''h'']]"
    by code_simp
  have l: "Load NewDB (Rows [[lfPath, ''3'', ''h'']])
           = Inr (add NewDB lfPath 3 ''h'' (pathToSearchTerms lfPath))"
    by (simp add: Load_def handleRecord_def Atoi_3)
  have e: "enumerates [crlfPath] (Files crlfDB)"
    by (simp add: enumerates_def crlfDB_Files)
  have t: "triples crlfDB = {(crlfPath, 3, ''h'')}"
    by (simp add: crlfDB_def triples_add_NewDB)
  have n: "lfPath \<noteq> crlfPath"
    by (simp add: lfPath_def crlfPath_def)
  from w o r l e t n keyed_crlfDB show ?thesis
    by (simp add: goInt_def triples_add_NewDB) (simp add: lfPath_def crlfPath_def)
qed

text \<open>
  C2, amended: for a store that holds every record at its path, with sizes that are Go
  \<open>int\<close>s and with no path and no hash in which a carriage return is followed by a line
  feed, and for every order \<open>ks\<close> in which \<open>Write\<close> may range over \<open>db.Files\<close>:
  \<open>readCsvFile\<close> reads from the file that \<open>Write\<close> wrote the rows that were written, and
  \<open>Load\<close> into a new store returns, reports no row that it could not parse, and the
  store it returns has the triples of the store written. The witness is a store whose
  path is written in quotes, over two lines.
\<close>

theorem Load_Write_roundtrip_without_crlf:
  assumes "keyed db"
    and "\<forall>r \<in> ran (Files db). goInt (Size r) \<and> \<not> hasCRLF (Path r) \<and> \<not> hasCRLF (Hash r)"
    and "enumerates ks (Files db)"
  shows "readCsvFile (Some (csvOutput (Write db ks))) = Rows (Write db ks)
         \<and> (\<exists>db'. Load NewDB (readCsvFile (Some (csvOutput (Write db ks)))) = Inr db'
                   \<and> triples db' = triples db \<and> printed db' = [])"
proof -
  from assms(2) have sizes: "\<forall>r \<in> ran (Files db). goInt (Size r)" by blast
  from assms(2) have rd: "readCsvFile (Some (csvOutput (Write db ks))) = Rows (Write db ks)"
    by (intro readCsvFile_Write) blast
  from handleRecords_Write[OF assms(1) sizes, of NewDB ks] obtain db' where
    l: "handleRecords NewDB (Write db ks) = Inr db'"
    and p: "printed db' = printed NewDB"
    and f: "\<And>k. Files db' k =
                 (if k \<in> set ks \<and> Files db k \<noteq> None then map_option reloaded (Files db k)
                  else Files NewDB k)" by blast
  from assms(3) have "set ks = dom (Files db)" by (simp add: enumerates_def)
  with f have f': "Files db' k = map_option reloaded (Files db k)" for k
    by (cases "Files db k") (auto simp: NewDB_def dom_def)
  have "ran (Files db') = reloaded ` ran (Files db)"
    unfolding ran_def using f' by (auto simp: image_iff)
  moreover have "(Path (reloaded r), Size (reloaded r), Hash (reloaded r)) = (Path r, Size r, Hash r)" for r
    by (simp add: reloaded_def)
  ultimately have "triples db' = (\<lambda>r. (Path r, Size r, Hash r)) ` ran (Files db)"
    unfolding triples_def by (auto simp: image_iff) metis
  also have "\<dots> = triples db" unfolding triples_def by auto
  finally have "triples db' = triples db" .
  with l p rd show ?thesis by (auto simp: Load_def NewDB_def)
qed

theorem Load_Write_roundtrip_without_crlf_witness:
  "keyed quotedDB \<and> goInt 3 \<and> \<not> hasCRLF quotedPath \<and> \<not> hasCRLF ''h''
   \<and> enumerates [quotedPath] (Files quotedDB)
   \<and> csvOutput (Write quotedDB [quotedPath])
       = [Quote] @ ''x/a, '' @ [Quote, Quote] @ ''b'' @ [Quote, Quote, NL] @ ''.txt'' @ [Quote]
         @ '',3,h'' @ [NL]
   \<and> readCsvFile (Some (csvOutput (Write quotedDB [quotedPath]))) = Rows [[quotedPath, ''3'', ''h'']]
   \<and> (\<exists>db'. Load NewDB (readCsvFile (Some (csvOutput (Write quotedDB [quotedPath])))) = Inr db'
             \<and> triples db' = triples quotedDB \<and> printed db' = [])"
proof -
  have c: "\<not> hasCRLF quotedPath" "\<not> hasCRLF ''h''"
    by code_simp+
  have g: "\<forall>r \<in> ran (Files quotedDB). goInt (Size r) \<and> \<not> hasCRLF (Path r) \<and> \<not> hasCRLF (Hash r)"
    using c by (simp add: quotedDB_Files goInt_def)
  have e: "enumerates [quotedPath] (Files quotedDB)"
    by (simp add: enumerates_def quotedDB_Files)
  have w: "Write quotedDB [quotedPath] = [[quotedPath, ''3'', ''h'']]"
    by (simp add: Write_def quotedDB_Files Itoa_3)
  have o: "csvOutput [[quotedPath, ''3'', ''h'']]
           = [Quote] @ ''x/a, '' @ [Quote, Quote] @ ''b'' @ [Quote, Quote, NL] @ ''.txt'' @ [Quote]
             @ '',3,h'' @ [NL]"
    by code_simp
  have o': "csvOutput (Write quotedDB [quotedPath])
            = [Quote] @ ''x/a, '' @ [Quote, Quote] @ ''b'' @ [Quote, Quote, NL] @ ''.txt'' @ [Quote]
              @ '',3,h'' @ [NL]"
    using w o by simp
  have i: "goInt 3" by (simp add: goInt_def)
  note roundtrip = Load_Write_roundtrip_without_crlf [OF keyed_quotedDB g e]
  from roundtrip have r: "readCsvFile (Some (csvOutput (Write quotedDB [quotedPath])))
                          = Rows [[quotedPath, ''3'', ''h'']]"
    using w by simp
  from roundtrip have l: "\<exists>db'. Load NewDB (readCsvFile (Some (csvOutput (Write quotedDB [quotedPath])))) = Inr db'
             \<and> triples db' = triples quotedDB \<and> printed db' = []"
    by (rule conjunct2)
  from keyed_quotedDB i c e o' r l show ?thesis by blast
qed

text \<open>
  C3 (a scan of the root \<open>r\<close> never removes a record whose path has \<open>r\<close> as a raw string
  prefix only). The code tests \<open>strings.HasPrefix(record.Path, root)\<close>: with the record
  \<open>dir10/a.txt\<close> in the store, a scan of the root \<open>dir1\<close> that finds \<open>dir1/b.txt\<close>
  removes \<open>dir10/a.txt\<close> and reports one deletion.
\<close>

theorem scan_removes_raw_prefix_sibling:
  "Files dir10DB ''dir10/a.txt'' \<noteq> None
   \<and> Files (handleMatches okFS dir10DB ''dir1'' [''dir1/b.txt''] [''dir10/a.txt'', ''dir1/b.txt''])
        ''dir10/a.txt'' = None
   \<and> printed (handleMatches okFS dir10DB ''dir1'' [''dir1/b.txt''] [''dir10/a.txt'', ''dir1/b.txt''])
     = [MsgScanReport ''dir1'' 1 0 1 1]"
  by (simp add: handleMatches_def handleMatch_def Let_def hashFile_def okFS_def dir10DB_def add_def NewDB_def
        MB_def HasPrefix_def)

text \<open>
  C4 (the results are sorted by path over the whole result set, at most 100 are shown,
  and the truncation notice is printed exactly when there are more than 100). The code
  cuts the list to its first 100 identifiers and sorts afterwards, and it prints the
  notice when 100 or more identifiers are left. With exactly 100 results (none cut) the
  notice is printed; with 101 results of which the smallest path \<open>a\<close> comes last, \<open>a\<close>
  is not shown; and the same 101 results in another order show another set of lines.
\<close>

theorem PrintIDs_cuts_before_sorting:
  "length hundredIDs = 100 \<and> distinct hundredIDs \<and> ''a'' \<notin> set hundredIDs
   \<and> PrintIDs (catalogOf hundredIDs) hundredIDs []
       = Inr (resultLines (sort hundredIDs) @ [MsgTruncated], sort hundredIDs)
   \<and> PrintIDs (catalogOf (hundredIDs @ [''a''])) (hundredIDs @ [''a'']) []
       = Inr (resultLines (sort hundredIDs) @ [MsgTruncated], sort hundredIDs @ [''a''])
   \<and> PrintIDs (catalogOf (hundredIDs @ [''a''])) (''a'' # hundredIDs) []
       = Inr (resultLines (sort (''a'' # butlast hundredIDs)) @ [MsgTruncated],
              sort (''a'' # butlast hundredIDs) @ [last hundredIDs])"
proof -
  note l = length_hundredIDs
  have 1: "PrintIDs (catalogOf hundredIDs) hundredIDs []
       = Inr (resultLines (sort hundredIDs) @ [MsgTruncated], sort hundredIDs)"
    using l printLines_catalogOf[of "sort hundredIDs" hundredIDs, simplified]
    by (simp add: PrintIDs_def maxLines_def Let_def)
  have "set (sort hundredIDs) \<subseteq> set (hundredIDs @ [''a''])" by auto
  note p2 = printLines_catalogOf[OF this]
  have 2: "PrintIDs (catalogOf (hundredIDs @ [''a''])) (hundredIDs @ [''a'']) []
       = Inr (resultLines (sort hundredIDs) @ [MsgTruncated], sort hundredIDs @ [''a''])"
    using l p2
    by (simp add: PrintIDs_def maxLines_def Let_def)
  have ne: "hundredIDs \<noteq> []" using l by auto
  have t: "take 100 (''a'' # hundredIDs) = ''a'' # butlast hundredIDs"
    using l by (simp add: take_Cons' butlast_conv_take)
  have d: "drop 100 (''a'' # hundredIDs) = [last hundredIDs]"
    using l drop_to_last[of hundredIDs 99] by simp
  have s: "set (sort (''a'' # butlast hundredIDs)) \<subseteq> set (hundredIDs @ [''a''])"
    by (auto simp del: sort_key_simps dest: in_set_butlastD)
  have 3: "PrintIDs (catalogOf (hundredIDs @ [''a''])) (''a'' # hundredIDs) []
       = Inr (resultLines (sort (''a'' # butlast hundredIDs)) @ [MsgTruncated],
              sort (''a'' # butlast hundredIDs) @ [last hundredIDs])"
    using l printLines_catalogOf[OF s] t d
    by (simp add: PrintIDs_def maxLines_def Let_def del: sort_key_simps)
  from l 1 2 3 hundredIDs_distinct show ?thesis by blast
qed

text \<open>
  C5 (loading a readable CSV file never fails outright). The code does fail on a file
  that \<open>readCsvFile\<close> accepts: the CSV reader takes the number of fields from the first
  row, so a file whose only line is \<open>a.txt,1\<close> is read as one row of two fields, and
  \<open>handleRecord\<close> panics (index out of range) at \<open>record[2]\<close> once the size has parsed.
\<close>

theorem Load_short_row_panics:
  "Load NewDB (Rows [[''a.txt'', ''1'']]) = Inl PanicIndexOutOfRange"
  by (simp add: Load_def handleRecord_def Atoi_1)

text \<open>
  C6 (the second scan of an unchanged root reports no creation, no deletion and as many
  skipped files as it found). Not as stated: a file that cannot be stat'ed or hashed is
  found by both scans, stored by neither and counted as skipped by neither.
\<close>

theorem rescan_unreadable_file_not_skipped:
  "printed (handleMatches noFS (handleMatches noFS NewDB ''r'' [''r/a.txt''] [''r/a.txt''])
              ''r'' [''r/a.txt''] [''r/a.txt''])
   = [MsgScanError ''r/a.txt'', MsgScanReport ''r'' 1 0 0 0,
      MsgScanError ''r/a.txt'', MsgScanReport ''r'' 1 0 0 0]"
  by (simp add: handleMatches_def handleMatch_def noFS_def NewDB_def)

text \<open>
  C6, amended: let the store hold every record at its path, let the second loop of the
  first scan range over all of \<open>db.Files\<close>, and let the second scan find the same files
  on the same file system. Then the second scan changes nothing of the store but what is
  printed: it reports the files found, no creation and no deletion, and skips the files
  found that are in the store, which are all the files found when each of them can be
  stat'ed and hashed.
\<close>

theorem rescan_unchanged:
  fixes fs :: FileSystem and root :: string and files ks1 :: "string list" and db0 :: DB
  assumes "keyed db0" and "dom (Files db0) \<union> set files \<subseteq> set ks1"
  defines "db1 \<equiv> handleMatches fs db0 root files ks1"
  shows "handleMatches fs db1 root files ks2 =
           db1\<lparr>printed := printed db1
                  @ map MsgScanError (filter (\<lambda>f. Files db1 f = None) files)
                  @ [MsgScanReport root (length files)
                       (length (filter (\<lambda>f. Files db1 f \<noteq> None) files)) 0 0]\<rparr>
       \<and> ((\<forall>f\<in>set files. readable fs f) \<longrightarrow>
             filter (\<lambda>f. Files db1 f = None) files = []
           \<and> length (filter (\<lambda>f. Files db1 f \<noteq> None) files) = length files)"
proof -
  note first = handleMatches_first[OF assms(1,2), of fs root, folded db1_def]
  let ?errs = "map MsgScanError (filter (\<lambda>f. Files db1 f = None) files)"
  let ?dbA = "db1\<lparr>printed := printed db1 @ ?errs\<rparr>"
  have a: "addFound fs files (db1, 0, 0) = (?dbA, length (filter (\<lambda>f. Files db1 f \<noteq> None) files), 0)"
    using addFound_known[OF first(2), of 0 0] by simp
  have b: "removeMissing root files ks2 (?dbA, 0) = (?dbA, 0)"
    using first(1,3) by (intro removeMissing_noop) simp_all
  have 1: "handleMatches fs db1 root files ks2 =
           db1\<lparr>printed := printed db1 @ ?errs
                  @ [MsgScanReport root (length files)
                       (length (filter (\<lambda>f. Files db1 f \<noteq> None) files)) 0 0]\<rparr>"
    by (simp add: handleMatches_def a b)
  have 2: "filter (\<lambda>f. Files db1 f = None) files = []
           \<and> length (filter (\<lambda>f. Files db1 f \<noteq> None) files) = length files"
    if "\<forall>f\<in>set files. readable fs f"
  proof -
    from that first(2) have "\<forall>f\<in>set files. Files db1 f \<noteq> None" by blast
    then show ?thesis by (simp add: filter_empty_conv)
  qed
  from 1 2 show ?thesis by blast
qed

theorem rescan_unchanged_witness:
  "keyed NewDB \<and> dom (Files NewDB) \<union> set [''r/b.txt''] \<subseteq> set [''r/b.txt'']
   \<and> readable okFS ''r/b.txt''
   \<and> printed (handleMatches okFS NewDB ''r'' [''r/b.txt''] [''r/b.txt''])
       = [MsgScanReport ''r'' 1 0 1 0]
   \<and> handleMatches okFS (handleMatches okFS NewDB ''r'' [''r/b.txt''] [''r/b.txt''])
        ''r'' [''r/b.txt''] [''r/b.txt'']
     = (handleMatches okFS NewDB ''r'' [''r/b.txt''] [''r/b.txt''])
         \<lparr>printed := [MsgScanReport ''r'' 1 0 1 0, MsgScanReport ''r'' 1 1 0 0]\<rparr>"
proof -
  let ?db1 = "handleMatches okFS NewDB ''r'' [''r/b.txt''] [''r/b.txt'']"
  have k: "keyed NewDB" by (simp add: keyed_def NewDB_def)
  have d: "dom (Files NewDB) \<union> set [''r/b.txt''] \<subseteq> set [''r/b.txt'']" by (simp add: NewDB_def)
  have r: "readable okFS ''r/b.txt''" by (simp add: readable_def okFS_def hashFile_def)
  have p: "printed ?db1 = [MsgScanReport ''r'' 1 0 1 0]"
    by (simp add: handleMatches_def handleMatch_def Let_def hashFile_def okFS_def add_def NewDB_def
        MB_def HasPrefix_def)
  have f: "Files ?db1 ''r/b.txt'' \<noteq> None"
    by (simp add: handleMatches_def handleMatch_def Let_def hashFile_def okFS_def add_def NewDB_def
        MB_def HasPrefix_def)
  from rescan_unchanged [OF k d, of okFS "''r''" "[''r/b.txt'']"] p f k d r
  show ?thesis by simp
qed

text \<open>
  C7 (a search with several tokens returns the intersection, by path, of the match sets
  of its tokens). For the exact and the fuzzy mode, at least one token, and whatever
  orders Go picks for the loops over \<open>db.SearchTerms\<close>: the search returns, and the
  identifiers it passes to \<open>PrintIDs\<close> are, as a set, the intersection of the tokens'
  match sets. The witness is the search of the specification: the tokens \<open>bar\<close> and
  \<open>1786396036\<close> in fuzzy mode find \<open>bar-1786396036.txt\<close> and nothing else.
\<close>

theorem search_is_intersection:
  assumes "searchType = fast \<or> searchType = slow" and "needles \<noteq> []"
    and "length kss = length needles" and "\<forall>ks\<in>set kss. enumerates ks (SearchTerms db)"
  shows "\<exists>ids. searchIDs db searchType needles kss = Inr ids
             \<and> set ids = (\<Inter>n\<in>set needles. matchSet db searchType n)"
proof -
  let ?res = "snd (collectIDs db searchType needles kss)"
  from assms(4) have e: "\<forall>ks\<in>set kss. set ks = dom (SearchTerms db)"
    by (simp add: enumerates_def)
  have c: "(?res = [] \<and> (\<exists>n\<in>set needles. matchSet db searchType n = {}))
         \<or> (map set ?res = map (matchSet db searchType) needles)"
    using assms(1) slowCollectIDs_result[OF assms(3) e, of "[]"] fastCollectIDs_result[of db needles "[]"]
      fast_neq_slow by (auto simp: collectIDs_def)
  show ?thesis
  proof (cases "?res = []")
    case True
    with c assms(2) have "\<exists>n\<in>set needles. matchSet db searchType n = {}" by auto
    then have "(\<Inter>n\<in>set needles. matchSet db searchType n) = {}" by blast
    with True show ?thesis by (simp add: searchIDs_def)
  next
    case False
    with c have m: "map set ?res = map (matchSet db searchType) needles" by blast
    from False obtain g rest where r: "?res = g # rest" by (cases ?res) auto
    have "set g \<inter> \<Inter> (set ` set rest) = \<Inter> (set (map set ?res))" using r by simp
    also have "\<dots> = (\<Inter>n\<in>set needles. matchSet db searchType n)" unfolding m by simp
    finally have "set (intersectLoop g rest) = (\<Inter>n\<in>set needles. matchSet db searchType n)"
      by (simp add: set_intersectLoop)
    with r show ?thesis by (simp add: searchIDs_def intersectAllIDs_def)
  qed
qed

theorem search_is_intersection_witness:
  "searchIDs searchDB slow [''bar'', ''1786396036''] [searchOrder, rev searchOrder]
     = Inr [''bambam/bar-1786396036.txt'']
   \<and> (\<Inter>n\<in>set [''bar'', ''1786396036'']. matchSet searchDB slow n) = {''bambam/bar-1786396036.txt''}"
proof -
  have "\<forall>ks\<in>set [searchOrder, rev searchOrder]. enumerates ks (SearchTerms searchDB)"
    using enumerates_searchOrder by simp
  from search_is_intersection [of slow "[''bar'', ''1786396036'']" "[searchOrder, rev searchOrder]" searchDB, OF _ _ _ this]
  show ?thesis unfolding searchIDs_searchDB by auto
qed




text \<open>
  C9 (the size+hash pass makes one candidate group per (hash, size) partition of every
  hash bucket with at least two identifiers, and no other group). For hashes without the
  character \<open>-\<close> (hex digests), whatever orders Go picks for the two loops: the map
  \<open>groups\<close> holds at the key of each partition the group of that partition, its members
  sorted by path; every entry of the map is at the key of a partition; and two
  partitions never share a key. The witness is the example of the specification: the
  four records give exactly one group, of the two records with the same hash and size.
\<close>

theorem sizeAndHashGroups_partition:
  assumes "enumerates hks (Hashes db)"
    and "\<forall>h ids. Hashes db h = Some ids \<longrightarrow> enumerates (sks h) (sizesOf db ids)"
    and "\<forall>h\<in>dom (Hashes db). CHR ''-'' \<notin> set h"
  shows "(\<forall>h sz. isPartition db h sz \<longrightarrow>
            sizeAndHashGroups db hks sks (groupID h sz)
              = Some (sizeGroup db (bucket (Hashes db) h) sz))
       \<and> (\<forall>k g. sizeAndHashGroups db hks sks k = Some g \<longrightarrow>
            (\<exists>h sz. isPartition db h sz \<and> k = groupID h sz))
       \<and> (\<forall>h sz h' sz'. isPartition db h sz \<and> isPartition db h' sz' \<and> groupID h sz = groupID h' sz'
            \<longrightarrow> h = h' \<and> sz = sz')"
proof -
  from assms(1) have hks: "set hks = dom (Hashes db)" by (simp add: enumerates_def)
  from assms(2) have e: "\<forall>h ids. Hashes db h = Some ids \<longrightarrow> set (sks h) = dom (sizesOf db ids)"
    by (simp add: enumerates_def)
  from assms(3) hks have nd: "\<forall>h\<in>set hks. CHR ''-'' \<notin> set h" by simp
  have mem: "h \<in> set hks" if "isPartition db h sz" for h sz
    using that hks by (auto simp: isPartition_def split: option.splits)
  have 1: "sizeAndHashGroups db hks sks (groupID h sz) = Some (sizeGroup db (bucket (Hashes db) h) sz)"
    if "isPartition db h sz" for h sz
    using sizeAndHashGroups_has[OF e nd mem[OF that] that] .
  have 2: "\<exists>h sz. isPartition db h sz \<and> k = groupID h sz"
    if "sizeAndHashGroups db hks sks k = Some g" for k g
    using sizeAndHashGroups_only[OF e that] by blast
  have 3: "h = h' \<and> sz = sz'"
    if "isPartition db h sz" "isPartition db h' sz'" "groupID h sz = groupID h' sz'" for h sz h' sz'
    using that mem nd groupID_inj by blast
  from 1 2 3 show ?thesis by blast
qed

theorem sizeAndHashGroups_partition_witness:
  "enumerates hashOrder3 (Hashes searchDB)
   \<and> isPartition searchDB ''464f'' 756381984
   \<and> sizeGroup searchDB (bucket (Hashes searchDB) ''464f'') 756381984
       = \<lparr>IDs = [''bambam/baz.txt'', ''bambam/foo-756381984.txt''], GroupSearchTerms = [],
          Type = SizeAndHash\<rparr>
   \<and> sizeAndHashGroups searchDB hashOrder3 (sizeOrderOf searchDB) (groupID ''464f'' 756381984)
       = Some (sizeGroup searchDB (bucket (Hashes searchDB) ''464f'') 756381984)
   \<and> sizeAndHashGroups searchDB hashOrder3 (sizeOrderOf searchDB) =
     [''464f-756381984'' \<mapsto>
        \<lparr>IDs = [''bambam/baz.txt'', ''bambam/foo-756381984.txt''], GroupSearchTerms = [],
         Type = SizeAndHash\<rparr>]"
proof -
  have e: "enumerates hashOrder3 (Hashes searchDB)"
    by (auto simp: enumerates_def hashOrder3_def Hashes_searchDB)
  have s: "\<forall>h ids. Hashes searchDB h = Some ids \<longrightarrow> enumerates (sizeOrderOf searchDB h) (sizesOf searchDB ids)"
    using enumerates_sizeOrderOf by blast
  have d: "\<forall>h\<in>dom (Hashes searchDB). CHR ''-'' \<notin> set h"
    by (simp add: Hashes_searchDB)
  have p: "isPartition searchDB ''464f'' 756381984"
    by (simp add: isPartition_def Hashes_searchDB Sizes_in_searchDB)
  have g: "sizeGroup searchDB (bucket (Hashes searchDB) ''464f'') 756381984
       = \<lparr>IDs = [''bambam/baz.txt'', ''bambam/foo-756381984.txt''], GroupSearchTerms = [],
          Type = SizeAndHash\<rparr>"
    by (simp add: sizeGroup_def bucket_def Hashes_searchDB Sizes_in_searchDB)
  from sizeAndHashGroups_partition [OF e s d] p
  have "sizeAndHashGroups searchDB hashOrder3 (sizeOrderOf searchDB) (groupID ''464f'' 756381984)
       = Some (sizeGroup searchDB (bucket (Hashes searchDB) ''464f'') 756381984)" by blast
  with e p g groups_searchDB show ?thesis by simp
qed

text \<open>
  C10 (a valid deletion index removes the record from \<open>db.Files\<close> whatever
  \<open>os.Remove\<close> answers). For a number that parses to an index within \<open>1 .. len(ids)\<close>,
  the map \<open>Files\<close> after \<open>deleteFile\<close> is the map before without the chosen identifier,
  for every file system, so also when \<open>os.Remove\<close> fails; the value returned is the
  outcome of \<open>os.Remove\<close>; and no row that \<open>Write\<close> produces afterwards, in whatever order
  it ranges over the map, carries the deleted path.
\<close>

theorem deleteFile_removes_before_os_Remove:
  assumes "Atoi (TrimSpace num) = Some index" and "1 \<le> index" and "index \<le> int (length ids)"
    and "keyed db"
  shows "Files (fst (deleteFile fs db ids num)) = (Files db)(ids ! nat (index - 1) := None)
       \<and> snd (deleteFile fs db ids num) = os_Remove fs (ids ! nat (index - 1))
       \<and> (\<forall>ks. \<forall>row \<in> set (Write (fst (deleteFile fs db ids num)) ks).
             row ! 0 \<noteq> ids ! nat (index - 1))"
proof -
  let ?fid = "ids ! nat (index - 1)"
  have files: "Files (fst (deleteFile fs db ids num)) = (Files db)(?fid := None)"
    using assms(1-3) by (simp add: deleteFile_def Let_def)
  have ret: "snd (deleteFile fs db ids num) = os_Remove fs ?fid"
    using assms(1-3) by (simp add: deleteFile_def Let_def)
  have "row ! 0 \<noteq> ?fid" if "row \<in> set (Write (fst (deleteFile fs db ids num)) ks)" for row ks
  proof -
    from that obtain k r where k: "((Files db)(?fid := None)) k = Some r"
      and row: "row = [Path r, Itoa (Size r), Hash r]"
      unfolding Write_rows files by blast
    from k have "k \<noteq> ?fid" and "Files db k = Some r" by (auto split: if_splits)
    with assms(4) have "Path r \<noteq> ?fid" by (auto simp: keyed_def)
    with row show ?thesis by simp
  qed
  with files ret show ?thesis by blast
qed

theorem deleteFile_removes_witness:
  "Atoi (TrimSpace ''1'') = Some 1 \<and> keyed oneFileDB
   \<and> \<not> os_Remove noFS ''a.txt''
   \<and> Files (fst (deleteFile noFS oneFileDB [''a.txt''] ''1'')) = Map.empty
   \<and> \<not> snd (deleteFile noFS oneFileDB [''a.txt''] ''1'')
   \<and> Write (fst (deleteFile noFS oneFileDB [''a.txt''] ''1'')) [''a.txt''] = []"
proof -
  have "(1::int) \<le> int (length [''a.txt''])" by simp
  from deleteFile_removes_before_os_Remove [OF Atoi_Trim_1 _ this keyed_oneFileDB, of noFS]
  have "Files (fst (deleteFile noFS oneFileDB [''a.txt''] ''1'')) = (Files oneFileDB)(''a.txt'' := None)"
    and "snd (deleteFile noFS oneFileDB [''a.txt''] ''1'') = os_Remove noFS ''a.txt''"
    by simp_all
  then show ?thesis
    using keyed_oneFileDB Atoi_Trim_1 by (simp add: oneFileDB_Files noFS_def Write_def)
qed

end
